theory Spec2Isabelle
  imports Complex_Main
begin

section \<open>Errors\<close>

text \<open>
  The exceptions of the Python source that the embedded functions can raise.
  \<open>ValueError\<close> carries the message of the \<^verbatim>\<open>raise\<close>; \<open>JSONDecodeError\<close> is the
  exception of \<^verbatim>\<open>json.loads\<close>, a subclass of \<^verbatim>\<open>ValueError\<close> in Python;
  \<open>IndexError\<close> is what a numpy read or write outside the array raises.
\<close>

datatype error =
    ValueError string
  | JSONDecodeError
  | IndexError
  | TypeError
  | OSError
  | ZeroDivisionError

text \<open>\<^verbatim>\<open>except ValueError\<close> catches \<^verbatim>\<open>ValueError\<close> and its subclasses.\<close>

fun is_ValueError :: "error \<Rightarrow> bool" where
  "is_ValueError (ValueError m) = True"
| "is_ValueError JSONDecodeError = True"
| "is_ValueError e = False"

abbreviation OccupiedPoint :: error where
  "OccupiedPoint \<equiv> ValueError ''attempt to play on occupied point''"

abbreviation SuicideMove :: error where
  "SuicideMove \<equiv> ValueError ''suicide move''"

section \<open>GoGameState (src/CNN/datasets.py)\<close>

text \<open>
  A coordinate pair is written \<open>(x, y)\<close> as in the source; the numpy array is indexed
  \<^verbatim>\<open>board[y, x]\<close>, so the board is the list of its rows. Cells hold the int8 values
  0 (empty), 1 (black) and -1 (white); the source never does arithmetic on them
  other than negating 1 or -1, so they are modelled as \<open>int\<close>.
\<close>

type_synonym cell = "int \<times> int"

record go_state =
  bsize :: int
  board :: "int list list"

text \<open>The shape invariant of \<^verbatim>\<open>np.zeros((size, size))\<close>: \<open>bsize\<close> rows of \<open>bsize\<close> cells.\<close>

definition wf_state :: "go_state \<Rightarrow> bool" where
  "wf_state s = (0 < bsize s \<and> length (board s) = nat (bsize s) \<and>
     list_all (\<lambda>row. length row = nat (bsize s)) (board s))"

text \<open>
  \<^verbatim>\<open>GoGameState.__init__\<close>. The message of the exception, which in the source
  ends with the size, is kept up to there.
\<close>

definition new_state :: "int \<Rightarrow> error + go_state" where
  "new_state sz =
     (if sz \<le> 0 \<or> sz > 25 then Inl (ValueError ''Unsupported board size'')
      else Inr \<lparr>bsize = sz, board = replicate (nat sz) (replicate (nat sz) 0)\<rparr>)"

text \<open>
  numpy indexing along one axis of length \<open>n\<close>: an index in \<open>[0, n)\<close> is itself, an
  index in \<open>[-n, 0)\<close> counts from the end, anything else raises IndexError (\<open>None\<close>).
\<close>

definition norm_index :: "int \<Rightarrow> int \<Rightarrow> nat option" where
  "norm_index n i =
     (if 0 \<le> i \<and> i < n then Some (nat i)
      else if - n \<le> i \<and> i < 0 then Some (nat (i + n))
      else None)"

text \<open>\<^verbatim>\<open>self.board[y, x]\<close>, read.\<close>

definition board_get :: "go_state \<Rightarrow> cell \<Rightarrow> int option" where
  "board_get s c =
     (case (norm_index (bsize s) (fst c), norm_index (bsize s) (snd c)) of
        (Some i, Some j) \<Rightarrow> Some (board s ! j ! i)
      | _ \<Rightarrow> None)"

text \<open>\<^verbatim>\<open>self.board[y, x] = v\<close>, write.\<close>

definition board_set :: "go_state \<Rightarrow> cell \<Rightarrow> int \<Rightarrow> go_state option" where
  "board_set s c v =
     (case (norm_index (bsize s) (fst c), norm_index (bsize s) (snd c)) of
        (Some i, Some j) \<Rightarrow> Some (s\<lparr>board := (board s)[j := (board s ! j)[i := v]]\<rparr>)
      | _ \<Rightarrow> None)"

text \<open>\<^verbatim>\<open>_neighbors\<close>: the generator's items in the order it yields them.\<close>

definition neighbors :: "go_state \<Rightarrow> cell \<Rightarrow> cell list" where
  "neighbors s c =
     (let x = fst c; y = snd c in
        (if x > 0 then [(x - 1, y)] else []) @
        (if x + 1 < bsize s then [(x + 1, y)] else []) @
        (if y > 0 then [(x, y - 1)] else []) @
        (if y + 1 < bsize s then [(x, y + 1)] else []))"

text \<open>
  The body of the \<^verbatim>\<open>for nx, ny in self._neighbors(cx, cy)\<close> loop of
  \<^verbatim>\<open>_collect_group\<close>, over the neighbours still to visit. The Python stack is a list
  whose top is its last element; here the top is the head. \<open>visited\<close> and
  \<open>liberties\<close> are Python sets, kept as duplicate-free lists.
\<close>

fun scan_neighbors ::
  "go_state \<Rightarrow> int \<Rightarrow> cell list \<Rightarrow> cell list \<Rightarrow> cell list \<Rightarrow> cell list \<Rightarrow>
   (cell list \<times> cell list \<times> cell list) option" where
  "scan_neighbors s val [] stack visited liberties = Some (stack, visited, liberties)"
| "scan_neighbors s val (n # ns) stack visited liberties =
     (case board_get s n of
        None \<Rightarrow> None
      | Some v \<Rightarrow>
          if v = 0 then scan_neighbors s val ns stack visited (List.insert n liberties)
          else if v = val \<and> n \<notin> set visited
            then scan_neighbors s val ns (n # stack) (n # visited) liberties
          else scan_neighbors s val ns stack visited liberties)"

text \<open>The index pairs that numpy accepts on a board.\<close>

definition valid_cells :: "go_state \<Rightarrow> cell set" where
  "valid_cells s = {- bsize s ..< bsize s} \<times> {- bsize s ..< bsize s}"

lemma finite_valid_cells: "finite (valid_cells s)"
  by (simp add: valid_cells_def)

lemma board_get_valid: "board_get s c = Some v \<Longrightarrow> c \<in> valid_cells s"
  by (cases c) (auto simp: board_get_def norm_index_def valid_cells_def
      split: option.splits if_splits)

lemma scan_neighbors_measure:
  "scan_neighbors s val ns stack visited libs = Some (stack', visited', libs') \<Longrightarrow>
   card (valid_cells s - set visited') + length stack' =
   card (valid_cells s - set visited) + length stack"
proof (induction ns arbitrary: stack visited libs)
  case Nil
  then show ?case by simp
next
  case (Cons n ns)
  from Cons.prems obtain v where v: "board_get s n = Some v"
    by (auto split: option.splits)
  show ?case
  proof (cases "v \<noteq> 0 \<and> v = val \<and> n \<notin> set visited")
    case True
    with Cons.prems v
    have "scan_neighbors s val ns (n # stack) (n # visited) libs = Some (stack', visited', libs')"
      by simp
    from Cons.IH [OF this]
    have eq: "card (valid_cells s - set visited') + length stack' =
      card (valid_cells s - set (n # visited)) + length (n # stack)" .
    have "n \<in> valid_cells s - set visited"
      using board_get_valid [OF v] True by simp
    then have "card (valid_cells s - set (n # visited)) + 1 = card (valid_cells s - set visited)"
      using finite_valid_cells [of s]
      by (metis Diff_insert Suc_eq_plus1 card_Suc_Diff1 finite_Diff list.simps(15))
    with eq show ?thesis by simp
  next
    case False
    with Cons.prems v
    have "\<exists>l. scan_neighbors s val ns stack visited l = Some (stack', visited', libs')"
      by (auto split: if_splits)
    then show ?thesis using Cons.IH by blast
  qed
qed

text \<open>
  The \<^verbatim>\<open>while stack:\<close> loop of \<^verbatim>\<open>_collect_group\<close>. It ends because every push marks
  a cell of the board that was not marked before.
\<close>

function collect_loop ::
  "go_state \<Rightarrow> int \<Rightarrow> cell list \<Rightarrow> cell list \<Rightarrow> cell list \<Rightarrow> cell list \<Rightarrow>
   (cell list \<times> cell list) option" where
  "collect_loop s val [] visited grp liberties = Some (grp, liberties)"
| "collect_loop s val (c # stack) visited grp liberties =
     (case scan_neighbors s val (neighbors s c) stack visited liberties of
        None \<Rightarrow> None
      | Some (stack', visited', liberties') \<Rightarrow>
          collect_loop s val stack' visited' (grp @ [c]) liberties')"
  by pat_completeness auto
termination
proof (relation "measure (\<lambda>(s, val, stack, visited, grp, libs).
    card (valid_cells s - set visited) + length stack)", goal_cases)
  case 1
  show ?case by simp
next
  case (2 s val c stack visited grp liberties x2 stack' y visited' liberties')
  then show ?case
    using scan_neighbors_measure [of s val "neighbors s c" stack visited liberties stack' visited' liberties']
    by simp
qed

text \<open>\<^verbatim>\<open>_collect_group\<close>: the group of the stone at \<open>c\<close> and its number of liberties.\<close>

definition collect_group :: "go_state \<Rightarrow> cell \<Rightarrow> (cell list \<times> nat) option" where
  "collect_group s c =
     (case board_get s c of
        None \<Rightarrow> None
      | Some val \<Rightarrow>
          (case collect_loop s val [c] [c] [] [] of
             None \<Rightarrow> None
           | Some (grp, liberties) \<Rightarrow> Some (grp, length liberties)))"

text \<open>
  The first loop of \<^verbatim>\<open>play_move\<close>: for every neighbour holding the opposite colour,
  collect its group, and keep the group when it has no liberty. The board is not
  changed in this loop, so a group touching the new stone twice is kept twice.
\<close>

fun find_captures ::
  "go_state \<Rightarrow> int \<Rightarrow> cell list \<Rightarrow> cell list list \<Rightarrow> cell list list option" where
  "find_captures s val [] captured_groups = Some captured_groups"
| "find_captures s val (n # ns) captured_groups =
     (case board_get s n of
        None \<Rightarrow> None
      | Some v \<Rightarrow>
          if v = - val then
            (case collect_group s n of
               None \<Rightarrow> None
             | Some (grp, liberties) \<Rightarrow>
                 if liberties = 0 then find_captures s val ns (captured_groups @ [grp])
                 else find_captures s val ns captured_groups)
          else find_captures s val ns captured_groups)"

text \<open>
  \<^verbatim>\<open>for group in captured_groups: for gx, gy in group: self.board[gy, gx] = v\<close>, over
  the stones of all groups in order. The result is the exception, if a write raises,
  and the board as it is then.
\<close>

fun write_all :: "go_state \<Rightarrow> cell list \<Rightarrow> int \<Rightarrow> error option \<times> go_state" where
  "write_all s [] v = (None, s)"
| "write_all s (c # cs) v =
     (case board_set s c v of
        None \<Rightarrow> (Some IndexError, s)
      | Some s' \<Rightarrow> write_all s' cs v)"

text \<open>
  \<^verbatim>\<open>play_move\<close>. The result pairs what the call returns (the captured stones) or
  raises with the board after the call, since the method mutates \<^verbatim>\<open>self.board\<close>.
\<close>

definition play_move :: "go_state \<Rightarrow> string \<Rightarrow> cell \<Rightarrow> (error + cell list) \<times> go_state" where
  "play_move s color c =
     (case board_get s c of
        None \<Rightarrow> (Inl IndexError, s)
      | Some v0 \<Rightarrow>
          if v0 \<noteq> 0 then (Inl OccupiedPoint, s)
          else
            let val = (if color = ''B'' then 1 else - 1) in
            (case board_set s c val of
               None \<Rightarrow> (Inl IndexError, s)
             | Some s1 \<Rightarrow>
                 (case find_captures s1 val (neighbors s1 c) [] of
                    None \<Rightarrow> (Inl IndexError, s1)
                  | Some captured_groups \<Rightarrow>
                      (case write_all s1 (concat captured_groups) 0 of
                         (Some e, s2) \<Rightarrow> (Inl e, s2)
                       | (None, s2) \<Rightarrow>
                           let captured_stones = concat captured_groups in
                           (case collect_group s2 c of
                              None \<Rightarrow> (Inl IndexError, s2)
                            | Some (grp, liberties) \<Rightarrow>
                                if liberties = 0 then
                                  (case write_all s2 (concat captured_groups) (- val) of
                                     (Some e, s3) \<Rightarrow> (Inl e, s3)
                                   | (None, s3) \<Rightarrow>
                                       (case board_set s3 c 0 of
                                          None \<Rightarrow> (Inl IndexError, s3)
                                        | Some s4 \<Rightarrow> (Inl SuicideMove, s4)))
                                else (Inr captured_stones, s2))))))"

text \<open>
  \<^verbatim>\<open>apply_setup\<close> and \<^verbatim>\<open>apply_empty\<close>: coordinates are 1-indexed here. A write
  that numpy refuses would raise IndexError.
\<close>

fun apply_setup :: "go_state \<Rightarrow> string \<Rightarrow> cell list \<Rightarrow> error + go_state" where
  "apply_setup s color [] = Inr s"
| "apply_setup s color ((x, y) # coords) =
     (let val = (if color = ''B'' then 1 else - 1) in
      if 1 \<le> x \<and> x \<le> bsize s \<and> 1 \<le> y \<and> y \<le> bsize s then
        (case board_set s (x - 1, y - 1) val of
           None \<Rightarrow> Inl IndexError
         | Some s' \<Rightarrow> apply_setup s' color coords)
      else apply_setup s color coords)"

fun apply_empty :: "go_state \<Rightarrow> cell list \<Rightarrow> error + go_state" where
  "apply_empty s [] = Inr s"
| "apply_empty s ((x, y) # coords) =
     (if 1 \<le> x \<and> x \<le> bsize s \<and> 1 \<le> y \<and> y \<le> bsize s then
        (case board_set s (x - 1, y - 1) 0 of
           None \<Rightarrow> Inl IndexError
         | Some s' \<Rightarrow> apply_empty s' coords)
      else apply_empty s coords)"

text \<open>
  \<^verbatim>\<open>make_features\<close>: the three planes, each as the list of its rows. The float32
  values 1.0 and 0.0 are the reals 1 and 0.
\<close>

definition make_features :: "go_state \<Rightarrow> string \<Rightarrow> real list list list" where
  "make_features s to_play =
     [map (map (\<lambda>v. if v = 1 then 1 else 0)) (board s),
      map (map (\<lambda>v. if v = - 1 then 1 else 0)) (board s),
      map (map (\<lambda>v. if to_play = ''B'' then 1 else 0)) (board s)]"

section \<open>GoMoveDataset (src/CNN/datasets.py)\<close>

text \<open>
  \<^verbatim>\<open>DatasetConfig\<close>. The two dataset classes declare the same dataclass; what a data
  file holds differs, so the record is polymorphic in it. The float \<^verbatim>\<open>val_ratio\<close> is
  the real number it denotes.
\<close>

record 'f dataset_config =
  board_size :: int
  data_files :: "'f list"
  val_ratio :: real
  limit_games :: "int option"

text \<open>Python's \<^verbatim>\<open>int()\<close> of a float truncates towards zero.\<close>

definition py_int :: "real \<Rightarrow> int" where
  "py_int r = (if 0 \<le> r then \<lfloor>r\<rfloor> else \<lceil>r\<rceil>)"

text \<open>
  \<^verbatim>\<open>_selected\<close>, the same code in both classes. The product \<^verbatim>\<open>val_ratio * 1000\<close> is a
  floating-point product: its rounding to a double is the parameter \<open>fmul\<close> (the exact
  product is one instance).
\<close>

definition selected ::
  "(real \<Rightarrow> real \<Rightarrow> real) \<Rightarrow> 'f dataset_config \<Rightarrow> string \<Rightarrow> int \<Rightarrow> bool" where
  "selected fmul cfg mode game_index =
     (if val_ratio cfg \<le> 0 then mode = ''train''
      else
        let bucket = game_index mod 1000;
            threshold = py_int (fmul (val_ratio cfg) 1000)
        in if mode = ''val'' then bucket < threshold else bucket \<ge> threshold)"

text \<open>
  One line of a .data file, as \<^verbatim>\<open>line.strip()\<close> and \<^verbatim>\<open>json.loads\<close> see it: blank after
  stripping; not JSON (\<^verbatim>\<open>json.loads\<close> raises JSONDecodeError); a JSON value that
  cannot be iterated (a number, \<^verbatim>\<open>null\<close>, \<^verbatim>\<open>true\<close>); or a sequence of entries. An
  entry is either not a dict with exactly one key, or a dict with one key, the
  colour, whose value is a list of two integers or is anything else. Coordinates
  that are JSON values other than integers are not modelled.
\<close>

datatype json_coords = Coords int int | Not_pair

datatype entry = Not_single_key | Entry string json_coords

datatype line = Blank | Undecodable | Not_iterable | Decoded "entry list"

text \<open>A data file: one that \<^verbatim>\<open>path.open\<close> cannot open, or its lines.\<close>

datatype data_file = Unopenable | Lines "line list"

text \<open>A sample: the feature planes and the action label.\<close>

type_synonym sample = "real list list list \<times> int"

text \<open>
  \<^verbatim>\<open>_game_to_samples\<close>, a generator: the samples it yields, in order, and the
  exception it ends with, if any. \<open>bs\<close> is \<^verbatim>\<open>self.board_size\<close>.
\<close>

fun game_to_samples :: "int \<Rightarrow> go_state \<Rightarrow> entry list \<Rightarrow> sample list \<times> error option" where
  "game_to_samples bs s [] = ([], None)"
| "game_to_samples bs s (Not_single_key # moves) = game_to_samples bs s moves"
| "game_to_samples bs s (Entry color Not_pair # moves) = game_to_samples bs s moves"
| "game_to_samples bs s (Entry color (Coords x y) # moves) =
     (if \<not> (1 \<le> x \<and> x \<le> bs \<and> 1 \<le> y \<and> y \<le> bs) then game_to_samples bs s moves
      else
        let features = make_features s color;
            action = (y - 1) * bs + (x - 1)
        in (case play_move s color (x - 1, y - 1) of
              (Inl e, s') \<Rightarrow>
                if is_ValueError e then ([(features, action)], None)
                else ([(features, action)], Some e)
            | (Inr captured, s') \<Rightarrow>
                (case game_to_samples bs s' moves of
                   (rest, r) \<Rightarrow> ((features, action) # rest, r))))"

text \<open>How the loop over the lines of one file ends.\<close>

datatype flow = Fallthrough int | Returned | Raised error

text \<open>
  The loop \<^verbatim>\<open>for game_index, line in enumerate(fh)\<close> of \<^verbatim>\<open>GoMoveDataset.__iter__\<close>,
  from line \<open>game_index\<close> on, with \<open>games_seen\<close> as it stands. The result is the
  samples yielded, a log, and how the loop ends. The log is not in the source: it
  records (file number, \<open>game_index\<close>) of every game that gets past the
  \<^verbatim>\<open>limit_games\<close> check, which is where the source counts \<^verbatim>\<open>games_seen += 1\<close>.
\<close>

fun iter_lines ::
  "(real \<Rightarrow> real \<Rightarrow> real) \<Rightarrow> data_file dataset_config \<Rightarrow> string \<Rightarrow> int \<Rightarrow> int \<Rightarrow>
   nat \<Rightarrow> int \<Rightarrow> line list \<Rightarrow> int \<Rightarrow> sample list \<times> (nat \<times> int) list \<times> flow" where
  "iter_lines fmul cfg mode worker_id num_workers fi game_index [] games_seen =
     ([], [], Fallthrough games_seen)"
| "iter_lines fmul cfg mode worker_id num_workers fi game_index (l # ls) games_seen =
     (if num_workers = 0 then ([], [], Raised ZeroDivisionError)
      else if game_index mod num_workers \<noteq> worker_id
        then iter_lines fmul cfg mode worker_id num_workers fi (game_index + 1) ls games_seen
      else if (case limit_games cfg of None \<Rightarrow> False | Some n \<Rightarrow> games_seen \<ge> n)
        then ([], [], Returned)
      else
        let games_seen' = games_seen + 1;
            continue = iter_lines fmul cfg mode worker_id num_workers fi (game_index + 1) ls games_seen'
        in
        if \<not> selected fmul cfg mode game_index
          then (case continue of (ys, lg, fl) \<Rightarrow> (ys, (fi, game_index) # lg, fl))
        else
          (case l of
             Blank \<Rightarrow> (case continue of (ys, lg, fl) \<Rightarrow> (ys, (fi, game_index) # lg, fl))
           | Undecodable \<Rightarrow> ([], [(fi, game_index)], Raised JSONDecodeError)
           | Not_iterable \<Rightarrow>
               (case new_state (board_size cfg) of
                  Inl e \<Rightarrow> ([], [(fi, game_index)], Raised e)
                | Inr state \<Rightarrow> ([], [(fi, game_index)], Raised TypeError))
           | Decoded moves \<Rightarrow>
               (case new_state (board_size cfg) of
                  Inl e \<Rightarrow> ([], [(fi, game_index)], Raised e)
                | Inr state \<Rightarrow>
                    (case game_to_samples (board_size cfg) state moves of
                       (smps, Some e) \<Rightarrow>
                         if is_ValueError e
                           then (case continue of (ys, lg, fl) \<Rightarrow>
                                   (smps @ ys, (fi, game_index) # lg, fl))
                         else (smps, [(fi, game_index)], Raised e)
                     | (smps, None) \<Rightarrow>
                         (case continue of (ys, lg, fl) \<Rightarrow>
                            (smps @ ys, (fi, game_index) # lg, fl))))))"

text \<open>
  The loop \<^verbatim>\<open>for path in self.cfg.data_files\<close>, from file number \<open>fi\<close> on. The
  enumeration of lines starts at 0 in every file.
\<close>

fun iter_files ::
  "(real \<Rightarrow> real \<Rightarrow> real) \<Rightarrow> data_file dataset_config \<Rightarrow> string \<Rightarrow> int \<Rightarrow> int \<Rightarrow>
   nat \<Rightarrow> data_file list \<Rightarrow> int \<Rightarrow> sample list \<times> (nat \<times> int) list \<times> error option" where
  "iter_files fmul cfg mode worker_id num_workers fi [] games_seen = ([], [], None)"
| "iter_files fmul cfg mode worker_id num_workers fi (Unopenable # fs) games_seen =
     ([], [], Some OSError)"
| "iter_files fmul cfg mode worker_id num_workers fi (Lines ls # fs) games_seen =
     (case iter_lines fmul cfg mode worker_id num_workers fi 0 ls games_seen of
        (ys, lg, Fallthrough games_seen') \<Rightarrow>
          (case iter_files fmul cfg mode worker_id num_workers (Suc fi) fs games_seen' of
             (ys', lg', r) \<Rightarrow> (ys @ ys', lg @ lg', r))
      | (ys, lg, Returned) \<Rightarrow> (ys, lg, None)
      | (ys, lg, Raised e) \<Rightarrow> (ys, lg, Some e))"

text \<open>
  \<^verbatim>\<open>GoMoveDataset.__iter__\<close> for the worker \<open>worker_id\<close> of \<open>num_workers\<close> (0 of 1
  when there is no worker info).
\<close>

definition GoMoveDataset_iter ::
  "(real \<Rightarrow> real \<Rightarrow> real) \<Rightarrow> data_file dataset_config \<Rightarrow> string \<Rightarrow> int \<Rightarrow> int \<Rightarrow>
   sample list \<times> (nat \<times> int) list \<times> error option" where
  "GoMoveDataset_iter fmul cfg mode worker_id num_workers =
     iter_files fmul cfg mode worker_id num_workers 0 (data_files cfg) 0"

section \<open>SgfGoMoveDataset (src/CNN/datasets_sgf.py)\<close>

text \<open>
  What \<^verbatim>\<open>node.get_move()\<close> of sgfmill returns for a node: \<^verbatim>\<open>(None, None)\<close> when the
  node has no move, \<^verbatim>\<open>(colour, None)\<close> for a pass, \<^verbatim>\<open>(colour, (a, b))\<close> for a move. An
  SGF file is one that cannot be read or parsed, or a game with its declared size
  and the nodes of its main sequence, the root first.
\<close>

datatype node_move = No_move | Pass string | Play string int int

datatype sgf_file = Unreadable | Game int "node_move list"

text \<open>
  The loop over \<^verbatim>\<open>main_sequence[1:]\<close>. Unpacking \<^verbatim>\<open>x, y = pos\<close> of a pass raises
  TypeError.
\<close>

fun sgf_replay :: "int \<Rightarrow> go_state \<Rightarrow> node_move list \<Rightarrow> sample list \<times> error option" where
  "sgf_replay bs s [] = ([], None)"
| "sgf_replay bs s (No_move # nodes) = sgf_replay bs s nodes"
| "sgf_replay bs s (Pass color # nodes) = ([], Some TypeError)"
| "sgf_replay bs s (Play color x y # nodes) =
     (if \<not> (0 \<le> x \<and> x < bs \<and> 0 \<le> y \<and> y < bs) then sgf_replay bs s nodes
      else
        let features = make_features s color;
            action = y * bs + x
        in (case play_move s color (x, y) of
              (Inl e, s') \<Rightarrow>
                if is_ValueError e then ([(features, action)], None)
                else ([(features, action)], Some e)
            | (Inr captured, s') \<Rightarrow>
                (case sgf_replay bs s' nodes of
                   (rest, r) \<Rightarrow> ((features, action) # rest, r))))"

text \<open>
  The loop \<^verbatim>\<open>for file_index, sgf_path in enumerate(self.cfg.data_files)\<close> of
  \<^verbatim>\<open>SgfGoMoveDataset.__iter__\<close>, from \<open>file_index\<close> on. Every exception inside the
  \<^verbatim>\<open>try\<close> is caught by \<^verbatim>\<open>except Exception: continue\<close>, which skips
  \<^verbatim>\<open>games_seen += 1\<close>. The log (not in the source) records every \<open>file_index\<close> that
  gets past the \<^verbatim>\<open>limit_games\<close> check.
\<close>

fun sgf_iter_files ::
  "(real \<Rightarrow> real \<Rightarrow> real) \<Rightarrow> sgf_file dataset_config \<Rightarrow> string \<Rightarrow> int \<Rightarrow> int \<Rightarrow>
   int \<Rightarrow> sgf_file list \<Rightarrow> int \<Rightarrow> sample list \<times> int list \<times> error option" where
  "sgf_iter_files fmul cfg mode worker_id num_workers file_index [] games_seen = ([], [], None)"
| "sgf_iter_files fmul cfg mode worker_id num_workers file_index (f # fs) games_seen =
     (if num_workers = 0 then ([], [], Some ZeroDivisionError)
      else if file_index mod num_workers \<noteq> worker_id
        then sgf_iter_files fmul cfg mode worker_id num_workers (file_index + 1) fs games_seen
      else if (case limit_games cfg of None \<Rightarrow> False | Some n \<Rightarrow> games_seen \<ge> n)
        then ([], [], None)
      else
        let skip = sgf_iter_files fmul cfg mode worker_id num_workers (file_index + 1) fs games_seen
        in
        if \<not> selected fmul cfg mode file_index
          then (case skip of (ys, lg, r) \<Rightarrow> (ys, file_index # lg, r))
        else
          (case f of
             Unreadable \<Rightarrow> (case skip of (ys, lg, r) \<Rightarrow> (ys, file_index # lg, r))
           | Game sz main_sequence \<Rightarrow>
               if sz \<noteq> board_size cfg
                 then (case skip of (ys, lg, r) \<Rightarrow> (ys, file_index # lg, r))
               else
                 (case new_state (board_size cfg) of
                    Inl e \<Rightarrow> (case skip of (ys, lg, r) \<Rightarrow> (ys, file_index # lg, r))
                  | Inr state \<Rightarrow>
                      (case sgf_replay (board_size cfg) state (drop 1 main_sequence) of
                         (smps, Some e) \<Rightarrow>
                           (case skip of (ys, lg, r) \<Rightarrow> (smps @ ys, file_index # lg, r))
                       | (smps, None) \<Rightarrow>
                           (case sgf_iter_files fmul cfg mode worker_id num_workers
                                   (file_index + 1) fs (games_seen + 1) of
                              (ys, lg, r) \<Rightarrow> (smps @ ys, file_index # lg, r))))))"

definition SgfGoMoveDataset_iter ::
  "(real \<Rightarrow> real \<Rightarrow> real) \<Rightarrow> sgf_file dataset_config \<Rightarrow> string \<Rightarrow> int \<Rightarrow> int \<Rightarrow>
   sample list \<times> int list \<times> error option" where
  "SgfGoMoveDataset_iter fmul cfg mode worker_id num_workers =
     sgf_iter_files fmul cfg mode worker_id num_workers 0 (data_files cfg) 0"

section \<open>Vocabulary of the properties\<close>

subsection \<open>Cells of a board\<close>

text \<open>The 0-indexed coordinates on the board, and the value of the cell there.\<close>

definition in_range :: "go_state \<Rightarrow> cell \<Rightarrow> bool" where
  "in_range s c = (0 \<le> fst c \<and> fst c < bsize s \<and> 0 \<le> snd c \<and> snd c < bsize s)"

definition cell_at :: "go_state \<Rightarrow> cell \<Rightarrow> int" where
  "cell_at s c = board s ! nat (snd c) ! nat (fst c)"

text \<open>
  The cells (0-indexed) named by the in-range entries of a list of 1-indexed
  coordinates.
\<close>

definition listed :: "go_state \<Rightarrow> cell list \<Rightarrow> cell set" where
  "listed s coords = {(x - 1, y - 1) | x y. (x, y) \<in> set coords \<and> 1 \<le> x \<and> x \<le> bsize s \<and> 1 \<le> y \<and> y \<le> bsize s}"

subsection \<open>Groups, liberties and captures\<close>

text \<open>Two cells on the board are adjacent when they differ by one step in one coordinate.\<close>

definition adjacent :: "go_state \<Rightarrow> cell \<Rightarrow> cell \<Rightarrow> bool" where
  "adjacent s c d =
     (in_range s c \<and> in_range s d \<and> \<bar>fst c - fst d\<bar> + \<bar>snd c - snd d\<bar> = 1)"

text \<open>
  The group of the cell \<open>c\<close>: the cells reached from \<open>c\<close> through adjacent cells that
  hold the value of \<open>c\<close>.
\<close>

inductive_set group_of :: "go_state \<Rightarrow> cell \<Rightarrow> cell set" for s :: go_state and c :: cell where
  start: "c \<in> group_of s c"
| step: "d \<in> group_of s c \<Longrightarrow> adjacent s d e \<Longrightarrow> cell_at s e = cell_at s c \<Longrightarrow>
     e \<in> group_of s c"

text \<open>The liberties of a set of cells: the empty cells adjacent to one of them.\<close>

definition liberties_of :: "go_state \<Rightarrow> cell set \<Rightarrow> cell set" where
  "liberties_of s G = {e. in_range s e \<and> cell_at s e = 0 \<and> (\<exists>g\<in>G. adjacent s g e)}"

text \<open>The board with the value \<open>v\<close> in the cell \<open>c\<close>.\<close>

definition place :: "go_state \<Rightarrow> cell \<Rightarrow> int \<Rightarrow> go_state" where
  "place s c v =
     s\<lparr>board := (board s)[nat (snd c) := (board s ! nat (snd c))[nat (fst c) := v]]\<rparr>"

text \<open>The board with the cells of \<open>C\<close> emptied.\<close>

definition remove_stones :: "go_state \<Rightarrow> cell set \<Rightarrow> go_state" where
  "remove_stones s C =
     s\<lparr>board := map (\<lambda>j. map (\<lambda>i. if (int i, int j) \<in> C then 0 else board s ! j ! i)
                             [0..<nat (bsize s)])
                    [0..<nat (bsize s)]\<rparr>"

text \<open>
  The stones that a stone of value \<open>val\<close> at \<open>c\<close> captures on the board \<open>s\<close> (which
  already holds it): the groups of the other colour that are adjacent to \<open>c\<close> and
  have no liberty.
\<close>

definition captured_stones :: "go_state \<Rightarrow> cell \<Rightarrow> int \<Rightarrow> cell set" where
  "captured_stones s c val =
     {d. \<exists>n. adjacent s c n \<and> cell_at s n = - val \<and> liberties_of s (group_of s n) = {} \<and>
          d \<in> group_of s n}"

text \<open>The cell value of a colour, as \<^verbatim>\<open>play_move\<close> and \<^verbatim>\<open>apply_setup\<close> compute it.\<close>

definition stone_value :: "string \<Rightarrow> int" where
  "stone_value color = (if color = ''B'' then 1 else - 1)"

text \<open>
  The board once the stone is placed; the stones this captures; the board once
  they are removed.
\<close>

definition placed :: "go_state \<Rightarrow> string \<Rightarrow> cell \<Rightarrow> go_state" where
  "placed s color c = place s c (stone_value color)"

definition captured_by :: "go_state \<Rightarrow> string \<Rightarrow> cell \<Rightarrow> cell set" where
  "captured_by s color c = captured_stones (placed s color c) c (stone_value color)"

definition after_captures :: "go_state \<Rightarrow> string \<Rightarrow> cell \<Rightarrow> go_state" where
  "after_captures s color c = remove_stones (placed s color c) (captured_by s color c)"

text \<open>The number of occupied cells.\<close>

definition stones :: "go_state \<Rightarrow> nat" where
  "stones s = length (filter (\<lambda>v. v \<noteq> 0) (concat (board s)))"

text \<open>
  A sequence of \<^verbatim>\<open>play_move\<close> calls on one board: the captures of each call and the
  final board, or \<open>None\<close> when a call fails.
\<close>

fun play_seq :: "go_state \<Rightarrow> (string \<times> cell) list \<Rightarrow> (cell list list \<times> go_state) option" where
  "play_seq s [] = Some ([], s)"
| "play_seq s ((color, c) # moves) =
     (case play_move s color c of
        (Inl e, s') \<Rightarrow> None
      | (Inr captured, s') \<Rightarrow>
          (case play_seq s' moves of
             None \<Rightarrow> None
           | Some (caps, s'') \<Rightarrow> Some (captured # caps, s'')))"

subsection \<open>Replaying up to an illegal move\<close>






subsection \<open>Games of a worker\<close>

text \<open>The indices that \<^verbatim>\<open>enumerate\<close> gives the items of a list, counting from \<open>i\<close>.\<close>

fun indices_from :: "int \<Rightarrow> 'a list \<Rightarrow> int list" where
  "indices_from i [] = []"
| "indices_from i (x # xs) = i # indices_from (i + 1) xs"

text \<open>The lines of a data file (none when it cannot be opened).\<close>

fun file_lines :: "data_file \<Rightarrow> line list" where
  "file_lines Unopenable = []"
| "file_lines (Lines ls) = ls"

text \<open>
  The games of a worker when the index of a game is its line number in its own
  file, counted from 0 in every file: pairs (file number, line number), in order.
\<close>

fun owned_lines :: "int \<Rightarrow> int \<Rightarrow> nat \<Rightarrow> data_file list \<Rightarrow> (nat \<times> int) list" where
  "owned_lines worker_id num_workers fi [] = []"
| "owned_lines worker_id num_workers fi (f # fs) =
     map (Pair fi) (filter (\<lambda>i. i mod num_workers = worker_id) (indices_from 0 (file_lines f))) @
     owned_lines worker_id num_workers (Suc fi) fs"

text \<open>
  The other reading of the index: the line number within the concatenation of all
  files, in the order of the file list.
\<close>

definition stream_index :: "data_file list \<Rightarrow> nat \<Rightarrow> int \<Rightarrow> int" where
  "stream_index files fi i = int (length (concat (map file_lines (take fi files)))) + i"

section \<open>Reading and writing cells\<close>

lemma board_get_in_range: "in_range s c \<Longrightarrow> board_get s c = Some (cell_at s c)"
  by (simp add: in_range_def board_get_def norm_index_def cell_at_def)

lemma board_set_in_range:
  "in_range s c \<Longrightarrow> board_set s c v =
     Some (s\<lparr>board := (board s)[nat (snd c) := (board s ! nat (snd c))[nat (fst c) := v]]\<rparr>)"
  by (simp add: in_range_def board_set_def norm_index_def)

lemma bsize_board_set: "board_set s c v = Some s' \<Longrightarrow> bsize s' = bsize s"
  by (auto simp: board_set_def split: option.splits)

lemma cell_at_board_set:
  assumes "in_range s c" "board_set s c v = Some s'" "0 \<le> fst d" "0 \<le> snd d" "d \<noteq> c"
  shows "cell_at s' d = cell_at s d"
proof -
  have s': "s' = s\<lparr>board := (board s)[nat (snd c) := (board s ! nat (snd c))[nat (fst c) := v]]\<rparr>"
    using assms(1,2) by (simp add: board_set_in_range)
  have ne: "nat (snd d) \<noteq> nat (snd c) \<or> nat (fst d) \<noteq> nat (fst c)"
    using assms by (cases c, cases d) (auto simp: in_range_def)
  show ?thesis
  proof (cases "nat (snd d) = nat (snd c)")
    case True
    then have "nat (fst d) \<noteq> nat (fst c)" using ne by simp
    then show ?thesis using True
      by (cases "nat (snd c) < length (board s)") (simp_all add: s' cell_at_def not_less list_update_beyond)
  next
    case False
    then show ?thesis by (simp add: s' cell_at_def)
  qed
qed

text \<open>
  C9. On a board, a move onto an in-range cell that is not empty fails with the
  occupied-point error, and the board after the call is the board before it: the
  check comes before any write.
\<close>

theorem play_move_occupied:
  "in_range s c \<Longrightarrow> cell_at s c \<noteq> 0 \<Longrightarrow> play_move s color c = (Inl OccupiedPoint, s)"
  by (simp add: play_move_def board_get_in_range)

theorem play_move_occupied_witness:
  "in_range \<lparr>bsize = 2, board = [[1, 0], [0, 0]]\<rparr> (0, 0) \<and>
   cell_at \<lparr>bsize = 2, board = [[1, 0], [0, 0]]\<rparr> (0, 0) \<noteq> 0 \<and>
   play_move \<lparr>bsize = 2, board = [[1, 0], [0, 0]]\<rparr> ''W'' (0, 0) =
     (Inl OccupiedPoint, \<lparr>bsize = 2, board = [[1, 0], [0, 0]]\<rparr>)"
  using play_move_occupied [of "\<lparr>bsize = 2, board = [[1, 0], [0, 0]]\<rparr>" "(0, 0)" "''W''"]
  by (simp add: in_range_def cell_at_def)

lemma apply_setup_frame_aux:
  "\<exists>s'. apply_setup s color coords = Inr s' \<and> bsize s' = bsize s \<and>
     (\<forall>d. 0 \<le> fst d \<and> 0 \<le> snd d \<and> d \<notin> listed s coords \<longrightarrow> cell_at s' d = cell_at s d)"
proof (induction s color coords rule: apply_setup.induct)
  case (1 s color)
  then show ?case by simp
next
  case (2 s color x y coords)
  show ?case
  proof (cases "1 \<le> x \<and> x \<le> bsize s \<and> 1 \<le> y \<and> y \<le> bsize s")
    case True
    then have ir: "in_range s (x - 1, y - 1)" by (simp add: in_range_def)
    define val :: int where "val = (if color = ''B'' then 1 else - 1)"
    obtain s1 where s1: "board_set s (x - 1, y - 1) val = Some s1"
      using board_set_in_range [OF ir] by blast
    have b1: "bsize s1 = bsize s" using s1 by (rule bsize_board_set)
    from "2.IH"(1) [OF val_def True s1]
    obtain s' where s': "apply_setup s1 color coords = Inr s'" "bsize s' = bsize s1"
      "\<forall>d. 0 \<le> fst d \<and> 0 \<le> snd d \<and> d \<notin> listed s1 coords \<longrightarrow> cell_at s' d = cell_at s1 d"
      by blast
    have l: "listed s ((x, y) # coords) = insert (x - 1, y - 1) (listed s1 coords)"
      using True by (auto simp: listed_def b1)
    have "apply_setup s color ((x, y) # coords) = Inr s'"
      using True s1 s'(1) by (simp add: val_def Let_def)
    moreover have "cell_at s' d = cell_at s d"
      if "0 \<le> fst d" "0 \<le> snd d" "d \<notin> listed s ((x, y) # coords)" for d
    proof -
      from that l have "d \<noteq> (x - 1, y - 1)" "d \<notin> listed s1 coords" by auto
      then show ?thesis
        using that(1,2) s'(3) [rule_format, of d] cell_at_board_set [OF ir s1, of d] by simp
    qed
    ultimately show ?thesis using s'(2) b1 by auto
  next
    case False
    then have l: "listed s ((x, y) # coords) = listed s coords"
      by (auto simp: listed_def)
    show ?thesis using False "2.IH"(2) l by (auto simp: Let_def)
  qed
qed

lemma apply_empty_frame_aux:
  "\<exists>s'. apply_empty s coords = Inr s' \<and> bsize s' = bsize s \<and>
     (\<forall>d. 0 \<le> fst d \<and> 0 \<le> snd d \<and> d \<notin> listed s coords \<longrightarrow> cell_at s' d = cell_at s d)"
proof (induction s coords rule: apply_empty.induct)
  case (1 s)
  then show ?case by simp
next
  case (2 s x y coords)
  show ?case
  proof (cases "1 \<le> x \<and> x \<le> bsize s \<and> 1 \<le> y \<and> y \<le> bsize s")
    case True
    then have ir: "in_range s (x - 1, y - 1)" by (simp add: in_range_def)
    obtain s1 where s1: "board_set s (x - 1, y - 1) 0 = Some s1"
      using board_set_in_range [OF ir] by blast
    have b1: "bsize s1 = bsize s" using s1 by (rule bsize_board_set)
    from "2.IH"(1) [OF True s1]
    obtain s' where s': "apply_empty s1 coords = Inr s'" "bsize s' = bsize s1"
      "\<forall>d. 0 \<le> fst d \<and> 0 \<le> snd d \<and> d \<notin> listed s1 coords \<longrightarrow> cell_at s' d = cell_at s1 d"
      by blast
    have l: "listed s ((x, y) # coords) = insert (x - 1, y - 1) (listed s1 coords)"
      using True by (auto simp: listed_def b1)
    have "apply_empty s ((x, y) # coords) = Inr s'"
      using True s1 s'(1) by simp
    moreover have "cell_at s' d = cell_at s d"
      if "0 \<le> fst d" "0 \<le> snd d" "d \<notin> listed s ((x, y) # coords)" for d
    proof -
      from that l have "d \<noteq> (x - 1, y - 1)" "d \<notin> listed s1 coords" by auto
      then show ?thesis
        using that(1,2) s'(3) [rule_format, of d] cell_at_board_set [OF ir s1, of d] by simp
    qed
    ultimately show ?thesis using s'(2) b1 by auto
  next
    case False
    then have l: "listed s ((x, y) # coords) = listed s coords"
      by (auto simp: listed_def)
    show ?thesis using False "2.IH"(2) l by auto
  qed
qed

text \<open>
  C10. \<^verbatim>\<open>apply_setup\<close> and \<^verbatim>\<open>apply_empty\<close> raise nothing, whatever the coordinates
  listed, and change no cell but those named by the listed coordinates that are in
  \<open>[1, size]\<close> in both components: a coordinate outside is ignored.
\<close>

theorem apply_setup_ignores_out_of_range:
  "(\<exists>s'. apply_setup s color coords = Inr s' \<and> bsize s' = bsize s \<and>
      (\<forall>d. 0 \<le> fst d \<and> 0 \<le> snd d \<and> d \<notin> listed s coords \<longrightarrow> cell_at s' d = cell_at s d)) \<and>
   (\<exists>s'. apply_empty s coords = Inr s' \<and> bsize s' = bsize s \<and>
      (\<forall>d. 0 \<le> fst d \<and> 0 \<le> snd d \<and> d \<notin> listed s coords \<longrightarrow> cell_at s' d = cell_at s d))"
  using apply_setup_frame_aux [of s color coords] apply_empty_frame_aux [of s coords]
  by blast

theorem apply_setup_ignores_out_of_range_witness:
  "(1, 0) \<notin> listed \<lparr>bsize = 2, board = [[0, - 1], [0, 0]]\<rparr> [(1, 1), (3, 1), (0, 2)] \<and>
   apply_setup \<lparr>bsize = 2, board = [[0, - 1], [0, 0]]\<rparr> ''B'' [(1, 1), (3, 1), (0, 2)] =
     Inr \<lparr>bsize = 2, board = [[1, - 1], [0, 0]]\<rparr> \<and>
   apply_empty \<lparr>bsize = 2, board = [[0, - 1], [0, 0]]\<rparr> [(1, 1), (3, 1), (0, 2)] =
     Inr \<lparr>bsize = 2, board = [[0, - 1], [0, 0]]\<rparr> \<and>
   cell_at \<lparr>bsize = 2, board = [[1, - 1], [0, 0]]\<rparr> (1, 0) =
     cell_at \<lparr>bsize = 2, board = [[0, - 1], [0, 0]]\<rparr> (1, 0)"
  using apply_setup_ignores_out_of_range
    [of "\<lparr>bsize = 2, board = [[0, - 1], [0, 0]]\<rparr>" "''B''" "[(1, 1), (3, 1), (0, 2)]"]
  by (auto simp: listed_def board_set_def norm_index_def cell_at_def)

section \<open>The train and validation split\<close>

lemma py_int_floor: "0 \<le> r \<Longrightarrow> py_int r = \<lfloor>r\<rfloor>"
  by (simp add: py_int_def)

text \<open>
  C3. For a \<open>val_ratio\<close> in [0, 1] and the threshold \<open>floor (val_ratio * 1000)\<close>, a game
  index is selected for ''val'' iff its bucket \<open>i mod 1000\<close> is below the threshold and
  for ''train'' iff it is not, so every index is in exactly one split; and when
  \<open>val_ratio \<le> 0\<close> every index is in ''train'' and none in ''val''. The two premises
  are facts of the floating-point product: it is exact at 0 and keeps the sign.
\<close>

theorem selected_split:
  assumes "fmul 0 1000 = 0" and "\<And>v. 0 \<le> v \<Longrightarrow> 0 \<le> fmul v 1000"
  shows "(0 \<le> val_ratio cfg \<and> val_ratio cfg \<le> 1 \<longrightarrow>
           (selected fmul cfg ''val'' i \<longleftrightarrow> i mod 1000 < \<lfloor>fmul (val_ratio cfg) 1000\<rfloor>) \<and>
           (selected fmul cfg ''train'' i \<longleftrightarrow> i mod 1000 \<ge> \<lfloor>fmul (val_ratio cfg) 1000\<rfloor>) \<and>
           (selected fmul cfg ''val'' i \<noteq> selected fmul cfg ''train'' i)) \<and>
         (val_ratio cfg \<le> 0 \<longrightarrow> selected fmul cfg ''train'' i \<and> \<not> selected fmul cfg ''val'' i)"
proof -
  have z: "val_ratio cfg = 0 \<Longrightarrow> \<lfloor>fmul (val_ratio cfg) 1000\<rfloor> = 0"
    using assms(1) by simp
  have p: "0 \<le> val_ratio cfg \<Longrightarrow> py_int (fmul (val_ratio cfg) 1000) = \<lfloor>fmul (val_ratio cfg) 1000\<rfloor>"
    using assms(2) by (simp add: py_int_floor)
  have m: "0 \<le> i mod 1000" by simp
  show ?thesis
    using z p m by (auto simp: selected_def Let_def)
qed


theorem selected_split_witness:
  "0 \<le> val_ratio \<lparr>board_size = 9, data_files = [] :: data_file list, val_ratio = 1 / 10, limit_games = None\<rparr> \<and>
   val_ratio \<lparr>board_size = 9, data_files = [] :: data_file list, val_ratio = 1 / 10, limit_games = None\<rparr> \<le> 1 \<and>
   selected (*) \<lparr>board_size = 9, data_files = [] :: data_file list, val_ratio = 1 / 10, limit_games = None\<rparr>
     ''val'' 2099 \<and>
   \<not> selected (*) \<lparr>board_size = 9, data_files = [] :: data_file list, val_ratio = 1 / 10, limit_games = None\<rparr>
     ''train'' 2099 \<and>
   selected (*) \<lparr>board_size = 9, data_files = [] :: data_file list, val_ratio = 1 / 10, limit_games = None\<rparr>
     ''train'' 2100 \<and>
   \<not> selected (*) \<lparr>board_size = 9, data_files = [] :: data_file list, val_ratio = 1 / 10, limit_games = None\<rparr>
     ''val'' 2100"
  using selected_split [of "(*)"
      "\<lparr>board_size = 9, data_files = [] :: data_file list, val_ratio = 1 / 10, limit_games = None\<rparr>" 2099]
    selected_split [of "(*)"
      "\<lparr>board_size = 9, data_files = [] :: data_file list, val_ratio = 1 / 10, limit_games = None\<rparr>" 2100]
  by simp

section \<open>The flood fill computes the group and its liberties\<close>

lemma set_neighbors: "in_range s c \<Longrightarrow> set (neighbors s c) = {e. adjacent s c e}"
proof (cases c)
  case (Pair x y)
  assume "in_range s c"
  then show ?thesis
    unfolding Pair neighbors_def adjacent_def in_range_def Let_def
    by (auto simp: abs_if split: if_splits)
qed

lemma adjacent_in_range: "adjacent s c d \<Longrightarrow> in_range s d"
  by (simp add: adjacent_def)

lemma group_of_in_range:
  "d \<in> group_of s c \<Longrightarrow> in_range s c \<Longrightarrow> in_range s d"
  by (induction rule: group_of.induct) (auto simp: adjacent_def)

lemma group_of_same_value:
  "d \<in> group_of s c \<Longrightarrow> cell_at s d = cell_at s c"
  by (induction rule: group_of.induct) auto

lemma finite_in_range: "finite {e. in_range s e}"
proof -
  have "{e. in_range s e} \<subseteq> {0..<bsize s} \<times> {0..<bsize s}"
    by (auto simp: in_range_def)
  then show ?thesis by (rule finite_subset) simp
qed

lemma finite_liberties_of: "finite (liberties_of s G)"
  by (rule finite_subset [OF _ finite_in_range [of s]]) (auto simp: liberties_of_def)

lemma liberties_of_insert:
  "liberties_of s (insert c G) = liberties_of s G \<union> {e. adjacent s c e \<and> cell_at s e = 0}"
  by (auto simp: liberties_of_def adjacent_def)

lemma scan_neighbors_result:
  assumes "\<forall>n\<in>set ns. in_range s n" and "val \<noteq> 0"
  shows "\<exists>new libs'. scan_neighbors s val ns stack visited libs =
           Some (new @ stack, new @ visited, libs') \<and>
         set new = {n \<in> set ns. cell_at s n = val \<and> n \<notin> set visited} \<and>
         distinct new \<and>
         set libs' = set libs \<union> {n \<in> set ns. cell_at s n = 0} \<and>
         (distinct libs \<longrightarrow> distinct libs')"
  using assms(1)
proof (induction ns arbitrary: stack visited libs)
  case Nil
  then show ?case by simp
next
  case (Cons n ns)
  then have n: "board_get s n = Some (cell_at s n)" and ns: "\<forall>n\<in>set ns. in_range s n"
    by (simp_all add: board_get_in_range)
  consider (lib) "cell_at s n = 0"
    | (push) "cell_at s n \<noteq> 0" "cell_at s n = val" "n \<notin> set visited"
    | (skip) "cell_at s n \<noteq> 0" "\<not> (cell_at s n = val \<and> n \<notin> set visited)"
    by blast
  then show ?case
  proof cases
    case lib
    from Cons.IH [OF ns, of stack visited "List.insert n libs"]
    obtain new libs' where r: "scan_neighbors s val ns stack visited (List.insert n libs) =
           Some (new @ stack, new @ visited, libs')"
      "set new = {n \<in> set ns. cell_at s n = val \<and> n \<notin> set visited}" "distinct new"
      "set libs' = set (List.insert n libs) \<union> {n \<in> set ns. cell_at s n = 0}"
      "distinct (List.insert n libs) \<longrightarrow> distinct libs'"
      by blast
    have "scan_neighbors s val (n # ns) stack visited libs = Some (new @ stack, new @ visited, libs')"
      using n lib r(1) by simp
    moreover have "set new = {m \<in> set (n # ns). cell_at s m = val \<and> m \<notin> set visited}"
      using r(2) lib assms(2) by auto
    moreover have "set libs' = set libs \<union> {m \<in> set (n # ns). cell_at s m = 0}"
      using r(4) lib by auto
    moreover have "distinct libs \<longrightarrow> distinct libs'"
      using r(5) by simp
    ultimately show ?thesis using r(3) by blast
  next
    case push
    from Cons.IH [OF ns, of "n # stack" "n # visited" libs]
    obtain new libs' where r: "scan_neighbors s val ns (n # stack) (n # visited) libs =
           Some (new @ n # stack, new @ n # visited, libs')"
      "set new = {m \<in> set ns. cell_at s m = val \<and> m \<notin> set (n # visited)}" "distinct new"
      "set libs' = set libs \<union> {n \<in> set ns. cell_at s n = 0}"
      "distinct libs \<longrightarrow> distinct libs'"
      by blast
    have "scan_neighbors s val (n # ns) stack visited libs =
        Some ((new @ [n]) @ stack, (new @ [n]) @ visited, libs')"
      using n push r(1) by simp
    moreover have "set (new @ [n]) = {m \<in> set (n # ns). cell_at s m = val \<and> m \<notin> set visited}"
      using r(2) push by auto
    moreover have "distinct (new @ [n])"
      using r(2,3) by auto
    moreover have "set libs' = set libs \<union> {m \<in> set (n # ns). cell_at s m = 0}"
      using r(4) push by auto
    ultimately show ?thesis using r(5) by blast
  next
    case skip
    from Cons.IH [OF ns, of stack visited libs]
    obtain new libs' where r: "scan_neighbors s val ns stack visited libs =
           Some (new @ stack, new @ visited, libs')"
      "set new = {n \<in> set ns. cell_at s n = val \<and> n \<notin> set visited}" "distinct new"
      "set libs' = set libs \<union> {n \<in> set ns. cell_at s n = 0}"
      "distinct libs \<longrightarrow> distinct libs'"
      by blast
    have "scan_neighbors s val (n # ns) stack visited libs = Some (new @ stack, new @ visited, libs')"
      using n skip r(1) by auto
    moreover have "set new = {m \<in> set (n # ns). cell_at s m = val \<and> m \<notin> set visited}"
      using r(2) skip by auto
    moreover have "set libs' = set libs \<union> {m \<in> set (n # ns). cell_at s m = 0}"
      using r(4) skip by auto
    ultimately show ?thesis using r(3,5) by blast
  qed
qed

lemma collect_loop_correct:
  "val \<noteq> 0 \<Longrightarrow> cell_at s c0 = val \<Longrightarrow> in_range s c0 \<Longrightarrow>
     set stack \<union> set grp = set visited \<Longrightarrow> distinct (stack @ grp) \<Longrightarrow>
     set visited \<subseteq> group_of s c0 \<Longrightarrow> c0 \<in> set visited \<Longrightarrow>
     (\<forall>g\<in>set grp. \<forall>e. adjacent s g e \<and> cell_at s e = val \<longrightarrow> e \<in> set visited) \<Longrightarrow>
     set libs = liberties_of s (set grp) \<Longrightarrow> distinct libs \<Longrightarrow>
     \<exists>grp' libs'. collect_loop s val stack visited grp libs = Some (grp', libs') \<and>
       set grp' = group_of s c0 \<and> distinct grp' \<and>
       set libs' = liberties_of s (group_of s c0) \<and> distinct libs'"
proof (induction s val stack visited grp libs rule: collect_loop.induct)
  case (1 s val visited grp liberties)
  note closed = "1.prems"(8)
  have "group_of s c0 \<subseteq> set grp"
  proof
    fix d
    assume "d \<in> group_of s c0"
    then show "d \<in> set grp"
    proof (induction rule: group_of.induct)
      case start
      then show ?case using "1.prems"(4,7) by simp
    next
      case (step d e)
      have "e \<in> set visited"
        using closed step.IH step.hyps(2,3) "1.prems"(2) by blast
      then show ?case using "1.prems"(4) by simp
    qed
  qed
  with "1.prems"(4,6) have "set grp = group_of s c0" by auto
  then show ?case using "1.prems"(5,9,10) by simp
next
  case (2 s val c stack visited grp liberties)
  note nz = "2.prems"(1) and v0 = "2.prems"(2) and in0 = "2.prems"(3)
  have c_vis: "c \<in> set visited" using "2.prems"(4) by auto
  then have c_grp: "c \<in> group_of s c0" using "2.prems"(6) by auto
  then have c_in: "in_range s c" using group_of_in_range in0 by blast
  have nb: "set (neighbors s c) = {e. adjacent s c e}" using c_in by (rule set_neighbors)
  then have nb_in: "\<forall>n\<in>set (neighbors s c). in_range s n"
    by (auto simp: adjacent_def)
  from scan_neighbors_result [OF nb_in nz, of stack visited liberties]
  obtain new libs' where r:
    "scan_neighbors s val (neighbors s c) stack visited liberties =
       Some (new @ stack, new @ visited, libs')"
    "set new = {n \<in> set (neighbors s c). cell_at s n = val \<and> n \<notin> set visited}"
    "distinct new"
    "set libs' = set liberties \<union> {n \<in> set (neighbors s c). cell_at s n = 0}"
    "distinct liberties \<longrightarrow> distinct libs'"
    by blast
  have i1: "set (new @ stack) \<union> set (grp @ [c]) = set (new @ visited)"
    using "2.prems"(4) by auto
  have i2: "distinct ((new @ stack) @ grp @ [c])"
    using "2.prems"(4,5) r(2,3) by auto
  have i3: "set (new @ visited) \<subseteq> group_of s c0"
  proof -
    have "n \<in> group_of s c0" if "n \<in> set new" for n
    proof -
      from that r(2) nb have "adjacent s c n" "cell_at s n = val" by auto
      then show ?thesis using c_grp v0 by (auto intro: group_of.step)
    qed
    then show ?thesis using "2.prems"(6) by auto
  qed
  have i4: "c0 \<in> set (new @ visited)" using "2.prems"(7) by simp
  have i5: "\<forall>g\<in>set (grp @ [c]). \<forall>e. adjacent s g e \<and> cell_at s e = val \<longrightarrow> e \<in> set (new @ visited)"
  proof (intro ballI allI impI)
    fix g e
    assume g: "g \<in> set (grp @ [c])" and e: "adjacent s g e \<and> cell_at s e = val"
    show "e \<in> set (new @ visited)"
    proof (cases "g = c")
      case True
      then have "e \<in> set (neighbors s c)" using e nb by simp
      then show ?thesis using r(2) e by auto
    next
      case False
      then have "g \<in> set grp" using g by simp
      then have "e \<in> set visited" using "2.prems"(8) e by blast
      then show ?thesis by simp
    qed
  qed
  have i6: "set libs' = liberties_of s (set (grp @ [c]))"
  proof -
    have "set (grp @ [c]) = insert c (set grp)" by simp
    then show ?thesis
      using r(4) "2.prems"(9) nb liberties_of_insert [of s c "set grp"] by auto
  qed
  have i7: "distinct libs'" using r(5) "2.prems"(10) by simp
  from "2.IH" [OF r(1) refl refl nz v0 in0 i1 i2 i3 i4 i5 i6 i7]
  show ?case using r(1) by simp
qed

lemma collect_group_correct:
  assumes "in_range s c" and "cell_at s c \<noteq> 0"
  shows "\<exists>grp. collect_group s c = Some (grp, card (liberties_of s (group_of s c))) \<and>
     set grp = group_of s c \<and> distinct grp"
proof -
  have "\<exists>grp' libs'. collect_loop s (cell_at s c) [c] [c] [] [] = Some (grp', libs') \<and>
       set grp' = group_of s c \<and> distinct grp' \<and>
       set libs' = liberties_of s (group_of s c) \<and> distinct libs'"
    by (rule collect_loop_correct [OF assms(2) refl assms(1)])
       (auto simp: liberties_of_def intro: group_of.start)
  then obtain grp libs where r: "collect_loop s (cell_at s c) [c] [c] [] [] = Some (grp, libs)"
    "set grp = group_of s c" "distinct grp" "set libs = liberties_of s (group_of s c)" "distinct libs"
    by blast
  have "length libs = card (liberties_of s (group_of s c))"
    using r(4,5) distinct_card by fastforce
  then show ?thesis
    using r(1,2,3) assms(1) by (simp add: collect_group_def board_get_in_range)
qed

lemma wf_state_rows:
  "wf_state s \<longleftrightarrow> 0 < bsize s \<and> length (board s) = nat (bsize s) \<and>
     (\<forall>j < nat (bsize s). length (board s ! j) = nat (bsize s))"
  by (auto simp: wf_state_def list_all_length)

lemma board_set_place: "in_range s c \<Longrightarrow> board_set s c v = Some (place s c v)"
  by (simp add: board_set_in_range place_def)

lemma bsize_place: "bsize (place s c v) = bsize s"
  by (simp add: place_def)

lemma in_range_place: "in_range (place s c v) d = in_range s d"
  by (simp add: in_range_def bsize_place)

lemma wf_state_place: "wf_state s \<Longrightarrow> wf_state (place s c v)"
proof -
  assume wf: "wf_state s"
  have "length ((board s)[nat (snd c) := (board s ! nat (snd c))[nat (fst c) := v]] ! j) =
      nat (bsize s)" if "j < nat (bsize s)" for j
  proof (cases "j = nat (snd c)")
    case True
    then show ?thesis using wf that by (simp add: wf_state_rows)
  next
    case False
    then show ?thesis using wf that by (simp add: wf_state_rows)
  qed
  then show ?thesis using wf by (simp add: wf_state_rows place_def)
qed

lemma cell_at_place:
  assumes "wf_state s" "in_range s c" "in_range s d"
  shows "cell_at (place s c v) d = (if d = c then v else cell_at s d)"
proof -
  have j: "nat (snd c) < length (board s)" and i: "nat (fst c) < length (board s ! nat (snd c))"
    using assms(1,2) by (auto simp: wf_state_rows in_range_def)
  have eq: "d = c \<longleftrightarrow> nat (snd d) = nat (snd c) \<and> nat (fst d) = nat (fst c)"
    using assms(2,3) by (cases c, cases d) (auto simp: in_range_def)
  show ?thesis
    using j i eq by (auto simp: cell_at_def place_def nth_list_update)
qed

lemma state_eqI:
  assumes "wf_state s" "wf_state s'" "bsize s = bsize s'"
    and "\<And>d. in_range s d \<Longrightarrow> cell_at s d = cell_at s' d"
  shows "s = s'"
proof -
  have "board s = board s'"
  proof (rule nth_equalityI)
    show "length (board s) = length (board s')"
      using assms(1,2,3) by (simp add: wf_state_rows)
  next
    fix j
    assume j: "j < length (board s)"
    then have jn: "j < nat (bsize s)" using assms(1) by (simp add: wf_state_rows)
    show "board s ! j = board s' ! j"
    proof (rule nth_equalityI)
      show "length (board s ! j) = length (board s' ! j)"
        using assms(1,2,3) jn by (simp add: wf_state_rows)
    next
      fix i
      assume "i < length (board s ! j)"
      then have "i < nat (bsize s)" using assms(1) jn by (simp add: wf_state_rows)
      then have "in_range s (int i, int j)" using jn by (auto simp: in_range_def)
      from assms(4) [OF this] show "board s ! j ! i = board s' ! j ! i"
        by (simp add: cell_at_def)
    qed
  qed
  then show ?thesis using assms(3) by simp
qed

lemma bsize_remove_stones: "bsize (remove_stones s C) = bsize s"
  by (simp add: remove_stones_def)

lemma wf_state_remove_stones: "wf_state s \<Longrightarrow> wf_state (remove_stones s C)"
  by (simp add: wf_state_rows remove_stones_def)

lemma cell_at_remove_stones:
  assumes "in_range s d"
  shows "cell_at (remove_stones s C) d = (if d \<in> C then 0 else cell_at s d)"
proof -
  have "nat (fst d) < nat (bsize s)" "nat (snd d) < nat (bsize s)"
    "int (nat (fst d)) = fst d" "int (nat (snd d)) = snd d"
    using assms by (auto simp: in_range_def)
  then show ?thesis
    by (cases d) (simp add: cell_at_def remove_stones_def)
qed

lemma write_all_result:
  assumes "wf_state s" and "\<forall>c\<in>set cells. in_range s c"
  shows "\<exists>s'. write_all s cells v = (None, s') \<and> wf_state s' \<and> bsize s' = bsize s \<and>
     (\<forall>d. in_range s d \<longrightarrow> cell_at s' d = (if d \<in> set cells then v else cell_at s d))"
  using assms
proof (induction cells arbitrary: s)
  case Nil
  then show ?case by simp
next
  case (Cons c cells)
  let ?s1 = "place s c v"
  have c: "in_range s c" using Cons.prems(2) by simp
  have wf1: "wf_state ?s1" using Cons.prems(1) by (rule wf_state_place)
  have r1: "\<forall>c\<in>set cells. in_range ?s1 c"
    using Cons.prems(2) by (simp add: in_range_place)
  from Cons.IH [OF wf1 r1] obtain s' where s':
    "write_all ?s1 cells v = (None, s')" "wf_state s'" "bsize s' = bsize ?s1"
    "\<forall>d. in_range ?s1 d \<longrightarrow> cell_at s' d = (if d \<in> set cells then v else cell_at ?s1 d)"
    by blast
  have "write_all s (c # cells) v = (None, s')"
    using s'(1) c by (simp add: board_set_place)
  moreover have "cell_at s' d = (if d \<in> set (c # cells) then v else cell_at s d)"
    if "in_range s d" for d
    using s'(4) [rule_format, of d] that cell_at_place [OF Cons.prems(1) c that, of v]
    by (auto simp: in_range_place)
  ultimately show ?case using s'(2,3) by (auto simp: bsize_place)
qed

lemma find_captures_result:
  assumes "\<forall>n\<in>set ns. in_range s n" and "val \<noteq> 0"
  shows "\<exists>gs. find_captures s val ns acc = Some (acc @ gs) \<and>
     set (concat gs) = {d. \<exists>n\<in>set ns. cell_at s n = - val \<and>
        liberties_of s (group_of s n) = {} \<and> d \<in> group_of s n}"
  using assms(1)
proof (induction ns arbitrary: acc)
  case Nil
  then show ?case by simp
next
  case (Cons n ns)
  then have n: "in_range s n" and ns: "\<forall>n\<in>set ns. in_range s n" by simp_all
  have get: "board_get s n = Some (cell_at s n)" using n by (rule board_get_in_range)
  show ?case
  proof (cases "cell_at s n = - val")
    case False
    from Cons.IH [OF ns, of acc] obtain gs where
      "find_captures s val ns acc = Some (acc @ gs)"
      "set (concat gs) = {d. \<exists>n\<in>set ns. cell_at s n = - val \<and>
        liberties_of s (group_of s n) = {} \<and> d \<in> group_of s n}"
      by blast
    then show ?thesis using False get by auto
  next
    case True
    then have "cell_at s n \<noteq> 0" using assms(2) by simp
    from collect_group_correct [OF n this] obtain grp where grp:
      "collect_group s n = Some (grp, card (liberties_of s (group_of s n)))"
      "set grp = group_of s n"
      by blast
    have zero: "card (liberties_of s (group_of s n)) = 0 \<longleftrightarrow> liberties_of s (group_of s n) = {}"
      using finite_liberties_of by simp
    show ?thesis
    proof (cases "liberties_of s (group_of s n) = {}")
      case empty: True
      from Cons.IH [OF ns, of "acc @ [grp]"] obtain gs where gs:
        "find_captures s val ns (acc @ [grp]) = Some ((acc @ [grp]) @ gs)"
        "set (concat gs) = {d. \<exists>n\<in>set ns. cell_at s n = - val \<and>
          liberties_of s (group_of s n) = {} \<and> d \<in> group_of s n}"
        by blast
      have "find_captures s val (n # ns) acc = Some (acc @ (grp # gs))"
        using get True grp(1) empty gs(1) by simp
      moreover have "set (concat (grp # gs)) = {d. \<exists>m\<in>set (n # ns). cell_at s m = - val \<and>
          liberties_of s (group_of s m) = {} \<and> d \<in> group_of s m}"
        using gs(2) grp(2) True empty by auto
      ultimately show ?thesis by blast
    next
      case nonempty: False
      from Cons.IH [OF ns, of acc] obtain gs where gs:
        "find_captures s val ns acc = Some (acc @ gs)"
        "set (concat gs) = {d. \<exists>n\<in>set ns. cell_at s n = - val \<and>
          liberties_of s (group_of s n) = {} \<and> d \<in> group_of s n}"
        by blast
      have "find_captures s val (n # ns) acc = Some (acc @ gs)"
        using get True grp(1) nonempty zero gs(1) by simp
      moreover have "set (concat gs) = {d. \<exists>m\<in>set (n # ns). cell_at s m = - val \<and>
          liberties_of s (group_of s m) = {} \<and> d \<in> group_of s m}"
        using gs(2) nonempty by auto
      ultimately show ?thesis by blast
    qed
  qed
qed

lemma play_move_result:
  assumes wf: "wf_state s" and c: "in_range s c" and empty: "cell_at s c = 0"
    and val: "val = (if color = ''B'' then 1 else - 1)"
    and s1: "s1 = place s c val"
    and s2: "s2 = remove_stones s1 (captured_stones s1 c val)"
  shows "\<exists>caps. set caps = captured_stones s1 c val \<and>
     play_move s color c =
       (if liberties_of s2 (group_of s2 c) = {} then (Inl SuicideMove, s)
        else (Inr caps, s2))"
proof -
  have nz: "val \<noteq> 0" using val by simp
  have wf1: "wf_state s1" using wf s1 by (simp add: wf_state_place)
  have r1: "in_range s1 d = in_range s d" for d by (simp add: s1 in_range_place)
  have b1: "bsize s1 = bsize s" by (simp add: s1 bsize_place)
  have c1: "cell_at s1 d = (if d = c then val else cell_at s d)" if "in_range s d" for d
    using cell_at_place [OF wf c that] by (simp add: s1)
  have nb: "set (neighbors s1 c) = {e. adjacent s1 c e}"
    using c r1 by (simp add: set_neighbors)
  then have nb_in: "\<forall>n\<in>set (neighbors s1 c). in_range s1 n"
    by (auto simp: adjacent_def)
  from find_captures_result [OF nb_in nz, of "[]"] obtain gs where gs:
    "find_captures s1 val (neighbors s1 c) [] = Some gs"
    "set (concat gs) = captured_stones s1 c val"
    using nb by (auto simp: captured_stones_def)
  have cap_in: "in_range s1 d \<and> cell_at s1 d = - val" if "d \<in> captured_stones s1 c val" for d
  proof -
    from that obtain n where n: "adjacent s1 c n" "cell_at s1 n = - val" "d \<in> group_of s1 n"
      by (auto simp: captured_stones_def)
    then have "in_range s1 n" by (simp add: adjacent_def)
    then show ?thesis using n group_of_in_range group_of_same_value by metis
  qed
  then have all_in: "\<forall>d\<in>set (concat gs). in_range s1 d" using gs(2) by blast
  from write_all_result [OF wf1 all_in, of 0] obtain t where t:
    "write_all s1 (concat gs) 0 = (None, t)" "wf_state t" "bsize t = bsize s1"
    "\<forall>d. in_range s1 d \<longrightarrow> cell_at t d = (if d \<in> set (concat gs) then 0 else cell_at s1 d)"
    by blast
  have wf2: "wf_state s2" using wf1 s2 by (simp add: wf_state_remove_stones)
  have b2: "bsize s2 = bsize s" by (simp add: s2 bsize_remove_stones b1)
  have r2: "in_range s2 d = in_range s d" for d by (simp add: in_range_def b2)
  have c2: "cell_at s2 d = (if d \<in> captured_stones s1 c val then 0 else cell_at s1 d)"
    if "in_range s d" for d
    using that cell_at_remove_stones [of s1 d] by (simp add: s2 r1)
  have t_s2: "t = s2"
  proof (rule state_eqI [OF t(2) wf2])
    show "bsize t = bsize s2" using t(3) b1 b2 by simp
  next
    fix d
    assume "in_range t d"
    then have d: "in_range s d" using t(3) b1 by (simp add: in_range_def)
    then show "cell_at t d = cell_at s2 d"
      using t(4) [unfolded gs(2), rule_format, of d] c2 [OF d] r1 by simp
  qed
  have c_not_cap: "c \<notin> captured_stones s1 c val"
    using cap_in [of c] c1 [OF c] nz by auto
  then have c_s2: "cell_at s2 c = val" using c2 [OF c] c1 [OF c] by simp
  have c_in2: "in_range s2 c" using c r2 by simp
  from collect_group_correct [OF c_in2] c_s2 nz obtain grp where grp:
    "collect_group s2 c = Some (grp, card (liberties_of s2 (group_of s2 c)))"
    by auto
  have zero: "card (liberties_of s2 (group_of s2 c)) = 0 \<longleftrightarrow> liberties_of s2 (group_of s2 c) = {}"
    using finite_liberties_of by simp
  have start: "play_move s color c =
      (if card (liberties_of s2 (group_of s2 c)) = 0 then
         (case write_all s2 (concat gs) (- val) of
            (Some e, s3) \<Rightarrow> (Inl e, s3)
          | (None, s3) \<Rightarrow>
              (case board_set s3 c 0 of
                 None \<Rightarrow> (Inl IndexError, s3)
               | Some s4 \<Rightarrow> (Inl SuicideMove, s4)))
       else (Inr (concat gs), s2))"
    using c empty gs(1) t(1) t_s2 grp
    unfolding play_move_def Let_def val [symmetric]
    by (simp add: board_get_in_range board_set_place s1 [symmetric])
  show ?thesis
  proof (cases "liberties_of s2 (group_of s2 c) = {}")
    case False
    then show ?thesis using start zero gs(2) by (intro exI [of _ "concat gs"]) simp
  next
    case True
    have all_in2: "\<forall>d\<in>set (concat gs). in_range s2 d" using all_in r1 r2 by simp
    from write_all_result [OF wf2 all_in2, of "- val"] obtain u where u:
      "write_all s2 (concat gs) (- val) = (None, u)" "wf_state u" "bsize u = bsize s2"
      "\<forall>d. in_range s2 d \<longrightarrow> cell_at u d = (if d \<in> set (concat gs) then - val else cell_at s2 d)"
      by blast
    have u_s1: "u = s1"
    proof (rule state_eqI [OF u(2) wf1])
      show "bsize u = bsize s1" using u(3) b1 b2 by simp
    next
      fix d
      assume "in_range u d"
      then have d: "in_range s d" using u(3) b2 by (simp add: in_range_def)
      show "cell_at u d = cell_at s1 d"
      proof (cases "d \<in> captured_stones s1 c val")
        case True
        then show ?thesis
          using u(4) [unfolded gs(2), rule_format, of d] d r2 cap_in [OF True] by simp
      next
        case False
        then show ?thesis
          using u(4) [unfolded gs(2), rule_format, of d] d r2 c2 [OF d] by simp
      qed
    qed
    have restored: "place s1 c 0 = s"
    proof (rule state_eqI [OF _ wf])
      show "wf_state (place s1 c 0)" using wf1 by (rule wf_state_place)
    next
      show "bsize (place s1 c 0) = bsize s" by (simp add: bsize_place b1)
    next
      fix d
      assume "in_range (place s1 c 0) d"
      then have d: "in_range s d" by (simp add: in_range_place r1)
      have "cell_at (place s1 c 0) d = (if d = c then 0 else cell_at s1 d)"
        using cell_at_place [OF wf1, of c d 0] c d r1 by simp
      then show "cell_at (place s1 c 0) d = cell_at s d"
        using c1 [OF d] empty by simp
    qed
    have "play_move s color c = (Inl SuicideMove, s)"
      using start True zero u(1) u_s1 c r1 restored by (simp add: board_set_place)
    then show ?thesis using True gs(2) by (intro exI [of _ "concat gs"]) simp
  qed
qed

lemma adjacent_place: "adjacent (place s c v) d e = adjacent s d e"
  by (simp add: adjacent_def in_range_place)

lemma captured_stones_code:
  assumes "in_range s c" and "val \<noteq> 0"
    and "find_captures s val (neighbors s c) [] = Some gs"
  shows "captured_stones s c val = set (concat gs)"
proof -
  have nb: "set (neighbors s c) = {e. adjacent s c e}" using assms(1) by (rule set_neighbors)
  then have "\<forall>n\<in>set (neighbors s c). in_range s n" by (auto simp: adjacent_def)
  from find_captures_result [OF this assms(2), of "[]"] assms(3) nb
  show ?thesis by (auto simp: captured_stones_def)
qed

lemma liberties_of_code:
  assumes "in_range s c" and "cell_at s c \<noteq> 0" and "collect_group s c = Some (grp, k)"
  shows "(liberties_of s (group_of s c) = {}) = (k = 0)"
proof -
  from collect_group_correct [OF assms(1,2)] assms(3)
  have "k = card (liberties_of s (group_of s c))" by auto
  then show ?thesis using finite_liberties_of [of s "group_of s c"] by simp
qed

lemma play_move_suicide_aux:
  assumes "wf_state s" and "in_range s c" and "cell_at s c = 0"
    and "liberties_of (after_captures s color c) (group_of (after_captures s color c) c) = {}"
  shows "play_move s color c = (Inl SuicideMove, s)"
  using play_move_result [OF assms(1,2,3) stone_value_def refl refl, of color] assms(4)
  by (auto simp: after_captures_def captured_by_def placed_def)

lemma play_move_capture_aux:
  assumes wf: "wf_state s" and c: "in_range s c" and empty: "cell_at s c = 0"
    and n: "adjacent s c n" "cell_at (placed s color c) n = - stone_value color"
      "liberties_of (placed s color c) (group_of (placed s color c) n) = {}"
  shows "\<exists>caps. play_move s color c = (Inr caps, after_captures s color c) \<and>
     set caps = captured_by s color c \<and>
     group_of (placed s color c) n \<subseteq> set caps \<and>
     (\<forall>d. in_range s d \<longrightarrow>
        cell_at (after_captures s color c) d =
          (if d \<in> set caps then 0 else cell_at (placed s color c) d))"
proof -
  let ?s1 = "placed s color c"
  let ?s2 = "after_captures s color c"
  have adj1: "adjacent ?s1 c n" using n(1) by (simp add: placed_def adjacent_place)
  have "n \<in> group_of ?s1 n" by (rule group_of.start)
  then have n_cap: "n \<in> captured_by s color c"
    unfolding captured_by_def captured_stones_def using adj1 n(2,3) by blast
  have b2: "bsize ?s2 = bsize s"
    by (simp add: after_captures_def bsize_remove_stones placed_def bsize_place)
  have r1: "in_range ?s1 d = in_range s d" for d by (simp add: placed_def in_range_place)
  have c2: "cell_at ?s2 d = (if d \<in> captured_by s color c then 0 else cell_at ?s1 d)"
    if "in_range s d" for d
    using that cell_at_remove_stones [of ?s1 d] by (simp add: after_captures_def r1)
  have n_in: "in_range s n" using n(1) by (simp add: adjacent_def)
  have "adjacent ?s2 c n" using n(1) b2 by (simp add: adjacent_def in_range_def)
  moreover have "cell_at ?s2 n = 0" using c2 [OF n_in] n_cap by simp
  moreover have "in_range ?s2 n" using n_in b2 by (simp add: in_range_def)
  ultimately have "n \<in> liberties_of ?s2 (group_of ?s2 c)"
    by (auto simp: liberties_of_def intro: group_of.start)
  then have ne: "liberties_of ?s2 (group_of ?s2 c) \<noteq> {}" by blast
  from play_move_result [OF wf c empty stone_value_def refl refl, of color] ne
  obtain caps where caps: "set caps = captured_by s color c"
    "play_move s color c = (Inr caps, ?s2)"
    by (auto simp: after_captures_def captured_by_def placed_def)
  have "group_of ?s1 n \<subseteq> captured_by s color c"
    unfolding captured_by_def captured_stones_def using adj1 n(2,3) by blast
  then show ?thesis
    using caps c2 by (intro exI [of _ caps]) simp
qed

lemma filter_row_update:
  "i < length r \<Longrightarrow> r ! i = (0::int) \<Longrightarrow> v \<noteq> 0 \<Longrightarrow>
   length (filter (\<lambda>v. v \<noteq> 0) (r[i := v])) = Suc (length (filter (\<lambda>v. v \<noteq> 0) r))"
proof (induction r arbitrary: i)
  case Nil
  then show ?case by simp
next
  case (Cons a r)
  then show ?case by (cases i) auto
qed

lemma filter_concat_update:
  "j < length xss \<Longrightarrow> i < length (xss ! j) \<Longrightarrow> xss ! j ! i = (0::int) \<Longrightarrow> v \<noteq> 0 \<Longrightarrow>
   length (filter (\<lambda>v. v \<noteq> 0) (concat (xss[j := (xss ! j)[i := v]]))) =
     Suc (length (filter (\<lambda>v. v \<noteq> 0) (concat xss)))"
proof (induction xss arbitrary: j)
  case Nil
  then show ?case by simp
next
  case (Cons r xss)
  then show ?case by (cases j) (auto simp: filter_row_update)
qed

lemma norm_index_less: "norm_index n i = Some k \<Longrightarrow> k < nat n"
  by (auto simp: norm_index_def split: if_splits)

lemma wf_state_board_set:
  assumes "wf_state s" and "board_set s c v = Some s'"
  shows "wf_state s'"
proof -
  from assms(2) obtain i j where ij: "norm_index (bsize s) (fst c) = Some i"
    "norm_index (bsize s) (snd c) = Some j"
    and s': "s' = s\<lparr>board := (board s)[j := (board s ! j)[i := v]]\<rparr>"
    by (auto simp: board_set_def split: option.splits)
  have "length ((board s)[j := (board s ! j)[i := v]] ! k) = nat (bsize s)"
    if "k < nat (bsize s)" for k
    using assms(1) that by (cases "k = j") (simp_all add: wf_state_rows)
  then show ?thesis using assms(1) by (simp add: wf_state_rows s')
qed

lemma stones_board_set:
  assumes "wf_state s" and "board_get s c = Some 0" and "v \<noteq> 0"
    and "board_set s c v = Some s'"
  shows "stones s' = Suc (stones s)"
proof -
  from assms(4) obtain i j where ij: "norm_index (bsize s) (fst c) = Some i"
    "norm_index (bsize s) (snd c) = Some j"
    and s': "s' = s\<lparr>board := (board s)[j := (board s ! j)[i := v]]\<rparr>"
    by (auto simp: board_set_def split: option.splits)
  have z: "board s ! j ! i = 0" using assms(2) ij by (simp add: board_get_def)
  have "j < length (board s)" "i < length (board s ! j)"
    using assms(1) norm_index_less [OF ij(1)] norm_index_less [OF ij(2)]
    by (simp_all add: wf_state_rows)
  then show ?thesis
    using z assms(3) by (simp add: stones_def s' filter_concat_update)
qed

lemma play_move_no_capture:
  assumes "wf_state s" and "play_move s color c = (Inr [], s')"
  shows "wf_state s' \<and> stones s' = Suc (stones s)"
proof -
  let ?val = "if color = ''B'' then 1 else - 1 :: int"
  from assms(2) have get: "board_get s c = Some 0"
    by (auto simp: play_move_def split: option.splits if_splits)
  from assms(2) get obtain s1 where s1: "board_set s c ?val = Some s1"
    by (auto simp: play_move_def Let_def split: option.splits)
  from assms(2) get s1 obtain gs where gs: "find_captures s1 ?val (neighbors s1 c) [] = Some gs"
    by (auto simp: play_move_def Let_def split: option.splits)
  obtain e t where w: "write_all s1 (concat gs) 0 = (e, t)"
    by (cases "write_all s1 (concat gs) 0") auto
  from assms(2) get s1 gs w have cg: "concat gs = []" and "s' = t"
    by (auto simp: play_move_def Let_def split: option.splits if_splits prod.splits)
  then have "s' = s1" using w unfolding cg by simp
  moreover have "?val \<noteq> 0" by simp
  ultimately show ?thesis
    using wf_state_board_set [OF assms(1) s1] stones_board_set [OF assms(1) get _ s1]
    by blast
qed

lemma play_seq_stones:
  "wf_state s \<Longrightarrow> play_seq s moves = Some (caps, s') \<Longrightarrow> concat caps = [] \<Longrightarrow>
   stones s' = stones s + length moves"
proof (induction moves arbitrary: s caps)
  case Nil
  then show ?case by simp
next
  case (Cons m moves)
  obtain color c where m: "m = (color, c)" by (cases m) auto
  from Cons.prems(2) m obtain cap s1 caps' where st:
    "play_move s color c = (Inr cap, s1)" "play_seq s1 moves = Some (caps', s')"
    "caps = cap # caps'"
    by (auto split: prod.splits sum.splits option.splits)
  from st(3) Cons.prems(3) have e: "cap = []" "concat caps' = []" by simp_all
  from play_move_no_capture [OF Cons.prems(1)] st(1) e(1)
  have "wf_state s1" "stones s1 = Suc (stones s)" by simp_all
  then show ?case using Cons.IH [OF _ st(2) e(2)] by simp
qed

lemma new_state_wf: "new_state n = Inr s \<Longrightarrow> wf_state s \<and> stones s = 0"
  by (auto simp: new_state_def wf_state_def stones_def list_all_length split: if_splits)

section \<open>Suicide, capture and the stone count\<close>

text \<open>
  C1. On a well-formed board, a move onto an in-range empty cell that leaves its
  own group without liberty, on the board where the stone is placed and the
  captured opposing groups are removed, fails with the suicide error, and the board
  after the call is the board before it.
\<close>

theorem play_move_suicide:
  "wf_state s \<Longrightarrow> in_range s c \<Longrightarrow> cell_at s c = 0 \<Longrightarrow>
   liberties_of (after_captures s color c) (group_of (after_captures s color c) c) = {} \<Longrightarrow>
   play_move s color c = (Inl SuicideMove, s)"
  by (rule play_move_suicide_aux)

theorem play_move_suicide_witness:
  "wf_state \<lparr>bsize = 2, board = [[0, 1], [1, 0]]\<rparr> \<and>
   in_range \<lparr>bsize = 2, board = [[0, 1], [1, 0]]\<rparr> (0, 0) \<and>
   cell_at \<lparr>bsize = 2, board = [[0, 1], [1, 0]]\<rparr> (0, 0) = 0 \<and>
   liberties_of (after_captures \<lparr>bsize = 2, board = [[0, 1], [1, 0]]\<rparr> ''W'' (0, 0))
     (group_of (after_captures \<lparr>bsize = 2, board = [[0, 1], [1, 0]]\<rparr> ''W'' (0, 0)) (0, 0)) = {} \<and>
   play_move \<lparr>bsize = 2, board = [[0, 1], [1, 0]]\<rparr> ''W'' (0, 0) =
     (Inl SuicideMove, \<lparr>bsize = 2, board = [[0, 1], [1, 0]]\<rparr>)"
proof -
  let ?s = "\<lparr>bsize = 2, board = [[0, 1], [1, 0]]\<rparr>"
  let ?s1 = "\<lparr>bsize = 2, board = [[- 1, 1], [1, 0]]\<rparr>"
  have wf: "wf_state ?s" by (simp add: wf_state_def)
  have c: "in_range ?s (0, 0)" by (simp add: in_range_def)
  have c1: "in_range ?s1 (0, 0)" by (simp add: in_range_def)
  have e: "cell_at ?s (0, 0) = 0" by (simp add: cell_at_def)
  have p: "placed ?s ''W'' (0, 0) = ?s1"
    by (simp add: placed_def place_def stone_value_def)
  have fc: "find_captures ?s1 (- 1) (neighbors ?s1 (0, 0)) [] = Some []"
    by code_simp
  have cb: "captured_by ?s ''W'' (0, 0) = {}"
    using captured_stones_code [OF c1 _ fc] by (simp add: captured_by_def p stone_value_def)
  have ac: "after_captures ?s ''W'' (0, 0) = ?s1"
    unfolding after_captures_def cb p by code_simp
  have cg: "collect_group ?s1 (0, 0) = Some ([(0, 0)], 0)"
    by code_simp
  have l: "liberties_of ?s1 (group_of ?s1 (0, 0)) = {}"
    using liberties_of_code [OF c1 _ cg] by (simp add: cell_at_def)
  have h: "liberties_of (after_captures ?s ''W'' (0, 0))
     (group_of (after_captures ?s ''W'' (0, 0)) (0, 0)) = {}"
    unfolding ac by (rule l)
  from wf c e h play_move_suicide [OF wf c e h] show ?thesis
    by blast
qed

text \<open>
  C2. On a well-formed board, a move onto an in-range empty cell next to an
  opposing group that the new stone leaves without liberty succeeds, whatever the
  liberties of the new stone before the capture. The stones returned are exactly
  the stones of the adjacent opposing groups without liberty; every such group is
  among them; and the board after the call is the board with the new stone in which
  exactly the returned cells are emptied.
\<close>

theorem play_move_capture:
  "wf_state s \<Longrightarrow> in_range s c \<Longrightarrow> cell_at s c = 0 \<Longrightarrow> adjacent s c n \<Longrightarrow>
   cell_at (placed s color c) n = - stone_value color \<Longrightarrow>
   liberties_of (placed s color c) (group_of (placed s color c) n) = {} \<Longrightarrow>
   \<exists>caps. play_move s color c = (Inr caps, after_captures s color c) \<and>
     set caps = captured_by s color c \<and>
     group_of (placed s color c) n \<subseteq> set caps \<and>
     (\<forall>d. in_range s d \<longrightarrow>
        cell_at (after_captures s color c) d =
          (if d \<in> set caps then 0 else cell_at (placed s color c) d))"
  by (rule play_move_capture_aux)

theorem play_move_capture_witness:
  "wf_state \<lparr>bsize = 2, board = [[0, 1], [1, - 1]]\<rparr> \<and>
   in_range \<lparr>bsize = 2, board = [[0, 1], [1, - 1]]\<rparr> (0, 0) \<and>
   cell_at \<lparr>bsize = 2, board = [[0, 1], [1, - 1]]\<rparr> (0, 0) = 0 \<and>
   adjacent \<lparr>bsize = 2, board = [[0, 1], [1, - 1]]\<rparr> (0, 0) (1, 0) \<and>
   cell_at (placed \<lparr>bsize = 2, board = [[0, 1], [1, - 1]]\<rparr> ''W'' (0, 0)) (1, 0) =
     - stone_value ''W'' \<and>
   liberties_of (placed \<lparr>bsize = 2, board = [[0, 1], [1, - 1]]\<rparr> ''W'' (0, 0))
     (group_of (placed \<lparr>bsize = 2, board = [[0, 1], [1, - 1]]\<rparr> ''W'' (0, 0)) (1, 0)) = {} \<and>
   play_move \<lparr>bsize = 2, board = [[0, 1], [1, - 1]]\<rparr> ''W'' (0, 0) =
     (Inr [(1, 0), (0, 1)], \<lparr>bsize = 2, board = [[- 1, 0], [0, - 1]]\<rparr>) \<and>
   after_captures \<lparr>bsize = 2, board = [[0, 1], [1, - 1]]\<rparr> ''W'' (0, 0) =
     \<lparr>bsize = 2, board = [[- 1, 0], [0, - 1]]\<rparr> \<and>
   captured_by \<lparr>bsize = 2, board = [[0, 1], [1, - 1]]\<rparr> ''W'' (0, 0) = {(1, 0), (0, 1)}"
proof -
  let ?s = "\<lparr>bsize = 2, board = [[0, 1], [1, - 1]]\<rparr>"
  let ?s1 = "\<lparr>bsize = 2, board = [[- 1, 1], [1, - 1]]\<rparr>"
  have wf: "wf_state ?s" by (simp add: wf_state_def)
  have c: "in_range ?s (0, 0)" by (simp add: in_range_def)
  have n1: "in_range ?s1 (1, 0)" by (simp add: in_range_def)
  have e: "cell_at ?s (0, 0) = 0" by (simp add: cell_at_def)
  have a: "adjacent ?s (0, 0) (1, 0)" by (simp add: adjacent_def in_range_def)
  have p: "placed ?s ''W'' (0, 0) = ?s1"
    by (simp add: placed_def place_def stone_value_def)
  have v: "cell_at (placed ?s ''W'' (0, 0)) (1, 0) = - stone_value ''W''"
    unfolding p by (simp add: cell_at_def stone_value_def)
  have cg: "collect_group ?s1 (1, 0) = Some ([(1, 0)], 0)"
    by code_simp
  have l: "liberties_of (placed ?s ''W'' (0, 0)) (group_of (placed ?s ''W'' (0, 0)) (1, 0)) = {}"
    unfolding p using liberties_of_code [OF n1 _ cg] by (simp add: cell_at_def)
  have pm: "play_move ?s ''W'' (0, 0) =
      (Inr [(1, 0), (0, 1)], \<lparr>bsize = 2, board = [[- 1, 0], [0, - 1]]\<rparr>)"
    by code_simp
  from play_move_capture [OF wf c e a v l] pm
  have r: "after_captures ?s ''W'' (0, 0) = \<lparr>bsize = 2, board = [[- 1, 0], [0, - 1]]\<rparr>"
    "captured_by ?s ''W'' (0, 0) = {(1, 0), (0, 1)}"
    by auto
  from wf c e a v l pm r show ?thesis
    by blast
qed

text \<open>
  C8. After a sequence of \<^verbatim>\<open>play_move\<close> calls that all succeed and capture nothing,
  the board holds as many stones more as there were calls; from the empty board of
  \<^verbatim>\<open>GoGameState(n)\<close> the number of stones is the number of calls.
\<close>

theorem play_seq_stone_count:
  "(wf_state s \<and> play_seq s moves = Some (caps, s') \<and> concat caps = [] \<longrightarrow>
      stones s' = stones s + length moves) \<and>
   (new_state n = Inr s \<and> play_seq s moves = Some (caps, s') \<and> concat caps = [] \<longrightarrow>
      stones s' = length moves)"
  using play_seq_stones [of s moves caps s'] new_state_wf [of n s]
  by auto

theorem play_seq_stone_count_witness:
  "new_state 2 = Inr \<lparr>bsize = 2, board = [[0, 0], [0, 0]]\<rparr> \<and>
   wf_state \<lparr>bsize = 2, board = [[0, 0], [0, 0]]\<rparr> \<and>
   play_seq \<lparr>bsize = 2, board = [[0, 0], [0, 0]]\<rparr> [(''B'', (0, 0)), (''W'', (1, 1))] =
     Some ([[], []], \<lparr>bsize = 2, board = [[1, 0], [0, - 1]]\<rparr>) \<and>
   concat [[], [] :: cell list] = [] \<and>
   stones \<lparr>bsize = 2, board = [[1, 0], [0, - 1]]\<rparr> =
     length [(''B'', (0 :: int, 0 :: int)), (''W'', (1, 1))]"
proof -
  let ?s = "\<lparr>bsize = 2, board = [[0, 0], [0, 0]]\<rparr>"
  let ?s' = "\<lparr>bsize = 2, board = [[1, 0], [0, - 1]]\<rparr>"
  have a: "new_state 2 = Inr ?s" by code_simp
  have b: "wf_state ?s" by (simp add: wf_state_def)
  have c: "play_seq ?s [(''B'', (0, 0)), (''W'', (1, 1))] = Some ([[], []], ?s')"
    by code_simp
  have d: "concat [[], [] :: cell list] = []" by simp
  have "stones ?s' = length [(''B'', (0 :: int, 0 :: int)), (''W'', (1, 1))]"
    using play_seq_stone_count [of ?s "[(''B'', (0, 0)), (''W'', (1, 1))]" "[[], []]" ?s' 2]
      a c d
    by blast
  with a b c d show ?thesis by blast
qed

section \<open>Replaying a game with an illegal move\<close>









section \<open>Malformed lines and the games cap\<close>

text \<open>
  Two facts of the readers, for every input. The compact reader gets at most
  \<^verbatim>\<open>limit_games\<close> games past the cap check, whatever the games are. The SGF reader
  never ends with an exception.
\<close>

lemma iter_lines_limit:
  "limit_games cfg = Some n \<Longrightarrow>
   iter_lines fmul cfg mode worker_id num_workers fi gi ls seen = (ys, lg, fl) \<Longrightarrow>
   int (length lg) \<le> max 0 (n - seen) \<and>
   (\<forall>seen'. fl = Fallthrough seen' \<longrightarrow> seen' = seen + int (length lg))"
proof (induction ls arbitrary: gi seen ys lg fl)
  case Nil
  then show ?case by auto
next
  case (Cons l ls)
  show ?case
  proof (cases "num_workers = 0 \<or> gi mod num_workers \<noteq> worker_id \<or> seen \<ge> n")
    case True
    then show ?thesis using Cons.prems Cons.IH [of "gi + 1" seen ys lg fl]
      by (auto split: if_splits)
  next
    case False
    obtain ys' lg' fl' where r:
      "iter_lines fmul cfg mode worker_id num_workers fi (gi + 1) ls (seen + 1) = (ys', lg', fl')"
      by (cases "iter_lines fmul cfg mode worker_id num_workers fi (gi + 1) ls (seen + 1)") auto
    from Cons.IH [OF Cons.prems(1) r]
    have ih: "int (length lg') \<le> max 0 (n - (seen + 1))"
      "\<forall>seen'. fl' = Fallthrough seen' \<longrightarrow> seen' = seen + 1 + int (length lg')"
      by simp_all
    from Cons.prems False r
    have "(lg = (fi, gi) # lg' \<and> fl = fl') \<or> (lg = [(fi, gi)] \<and> (\<exists>e. fl = Raised e))"
      by (auto simp: Let_def split: if_splits line.splits sum.splits prod.splits option.splits)
    then show ?thesis using ih False by auto
  qed
qed

lemma iter_files_limit:
  "limit_games cfg = Some n \<Longrightarrow>
   iter_files fmul cfg mode worker_id num_workers fi files seen = (ys, lg, r) \<Longrightarrow>
   int (length lg) \<le> max 0 (n - seen)"
proof (induction files arbitrary: fi seen ys lg r)
  case Nil
  then show ?case by simp
next
  case (Cons f files)
  show ?case
  proof (cases f)
    case Unopenable
    then show ?thesis using Cons.prems by simp
  next
    case (Lines ls)
    obtain ys1 lg1 fl1 where r1:
      "iter_lines fmul cfg mode worker_id num_workers fi 0 ls seen = (ys1, lg1, fl1)"
      by (cases "iter_lines fmul cfg mode worker_id num_workers fi 0 ls seen") auto
    note l1 = iter_lines_limit [OF Cons.prems(1) r1]
    show ?thesis
    proof (cases fl1)
      case (Fallthrough seen')
      obtain ys2 lg2 r2 where r2:
        "iter_files fmul cfg mode worker_id num_workers (Suc fi) files seen' = (ys2, lg2, r2)"
        by (cases "iter_files fmul cfg mode worker_id num_workers (Suc fi) files seen'") auto
      from Cons.IH [OF Cons.prems(1) r2] have "int (length lg2) \<le> max 0 (n - seen')" .
      moreover have "seen' = seen + int (length lg1)" using l1 Fallthrough by simp
      moreover have "lg = lg1 @ lg2" using Cons.prems(2) Lines r1 Fallthrough r2 by simp
      ultimately show ?thesis using l1 by auto
    next
      case Returned
      then show ?thesis using Cons.prems(2) Lines r1 l1 by simp
    next
      case (Raised e)
      then show ?thesis using Cons.prems(2) Lines r1 l1 by simp
    qed
  qed
qed

lemma GoMoveDataset_iter_limit:
  "limit_games cfg = Some n \<Longrightarrow>
   length (fst (snd (GoMoveDataset_iter fmul cfg mode worker_id num_workers))) \<le> nat n"
  using iter_files_limit [of cfg n fmul mode worker_id num_workers 0 "data_files cfg" 0]
  by (cases "GoMoveDataset_iter fmul cfg mode worker_id num_workers")
     (auto simp: GoMoveDataset_iter_def)

lemma sgf_iter_files_never_raises:
  "num_workers \<noteq> 0 \<Longrightarrow>
   snd (snd (sgf_iter_files fmul cfg mode worker_id num_workers fi files seen)) = None"
proof (induction files arbitrary: fi seen)
  case Nil
  then show ?case by simp
next
  case (Cons f files)
  have a: "snd (snd (sgf_iter_files fmul cfg mode worker_id num_workers (fi + 1) files seen)) = None"
    by (rule Cons.IH [OF Cons.prems])
  have b: "snd (snd (sgf_iter_files fmul cfg mode worker_id num_workers (fi + 1) files (seen + 1))) = None"
    by (rule Cons.IH [OF Cons.prems])
  show ?case
    using Cons.prems a b
    by (auto simp: Let_def split: prod.splits sgf_file.splits sum.splits option.splits)
qed

text \<open>
  C6. In the compact format \<^verbatim>\<open>json.loads\<close> is called outside the \<^verbatim>\<open>try\<close>: a line
  that is not JSON ends the iteration with JSONDecodeError, and the game on the
  next line is never replayed. With a blank line in its place the next game
  yields its sample. The SGF reader, whose \<^verbatim>\<open>try\<close> covers the parsing, skips an
  unreadable file and goes on.
\<close>

theorem malformed_json_line_raises:
  "GoMoveDataset_iter (*)
     \<lparr>board_size = 2,
      data_files = [Lines [Undecodable, Decoded [Entry ''B'' (Coords 1 1)]]],
      val_ratio = 0, limit_games = None\<rparr> ''train'' 0 1 =
     ([], [(0, 0)], Some JSONDecodeError) \<and>
   GoMoveDataset_iter (*)
     \<lparr>board_size = 2,
      data_files = [Lines [Blank, Decoded [Entry ''B'' (Coords 1 1)]]],
      val_ratio = 0, limit_games = None\<rparr> ''train'' 0 1 =
     ([([[[0, 0], [0, 0]], [[0, 0], [0, 0]], [[1, 1], [1, 1]]], 0)], [(0, 0), (0, 1)], None) \<and>
   SgfGoMoveDataset_iter (*)
     \<lparr>board_size = 2,
      data_files = [Unreadable, Game 2 [No_move, Play ''B'' 0 0]],
      val_ratio = 0, limit_games = None\<rparr> ''train'' 0 1 =
     ([([[[0, 0], [0, 0]], [[0, 0], [0, 0]], [[1, 1], [1, 1]]], 0)], [0, 1], None)"
  by code_simp

text \<open>
  C7. In the SGF reader \<^verbatim>\<open>games_seen += 1\<close> stands at the end of the \<^verbatim>\<open>try\<close>, so it
  counts only the games that were selected, read, of the right size and replayed
  without an exception. With \<^verbatim>\<open>limit_games = 1\<close>, an unreadable file and a file of
  another size do not advance the count: the worker examines three files. The
  compact reader counts before the split filter and stops after one game.
\<close>

theorem sgf_limit_games_not_advanced:
  "SgfGoMoveDataset_iter (*)
     \<lparr>board_size = 2,
      data_files = [Unreadable, Game 3 [No_move, Play ''B'' 0 0], Game 2 [No_move, Play ''B'' 0 0]],
      val_ratio = 0, limit_games = Some 1\<rparr> ''train'' 0 1 =
     ([([[[0, 0], [0, 0]], [[0, 0], [0, 0]], [[1, 1], [1, 1]]], 0)], [0, 1, 2], None) \<and>
   GoMoveDataset_iter (*)
     \<lparr>board_size = 2,
      data_files = [Lines [Blank, Blank, Decoded [Entry ''B'' (Coords 1 1)]]],
      val_ratio = 0, limit_games = Some 1\<rparr> ''train'' 0 1 =
     ([], [(0, 0)], None)"
  by code_simp

section \<open>Sharding across workers\<close>

lemma iter_lines_log:
  "num_workers \<noteq> 0 \<Longrightarrow> limit_games cfg = None \<Longrightarrow>
   iter_lines fmul cfg mode worker_id num_workers fi gi ls seen = (ys, lg, Fallthrough seen') \<Longrightarrow>
   lg = map (Pair fi) (filter (\<lambda>i. i mod num_workers = worker_id) (indices_from gi ls))"
proof (induction ls arbitrary: gi seen ys lg seen')
  case Nil
  then show ?case by simp
next
  case (Cons l ls)
  show ?case
  proof (cases "gi mod num_workers = worker_id")
    case False
    then show ?thesis using Cons.prems Cons.IH [of "gi + 1" seen ys lg seen'] by simp
  next
    case True
    obtain ys' lg' fl' where r: "iter_lines fmul cfg mode worker_id num_workers fi (gi + 1) ls (seen + 1) = (ys', lg', fl')"
      by (cases "iter_lines fmul cfg mode worker_id num_workers fi (gi + 1) ls (seen + 1)") auto
    from Cons.prems True r have "fl' = Fallthrough seen' \<and> lg = (fi, gi) # lg'"
      by (auto simp: Let_def split: if_splits line.splits sum.splits prod.splits option.splits)
    then show ?thesis using Cons.IH [of "gi + 1" "seen + 1" ys' lg' seen'] r Cons.prems(1,2) True
      by simp
  qed
qed

lemma iter_lines_not_returned:
  "limit_games cfg = None \<Longrightarrow>
   iter_lines fmul cfg mode worker_id num_workers fi gi ls seen \<noteq> (ys, lg, Returned)"
proof (induction ls arbitrary: gi seen ys lg)
  case Nil
  then show ?case by simp
next
  case (Cons l ls)
  show ?case
  proof
    assume a: "iter_lines fmul cfg mode worker_id num_workers fi gi (l # ls) seen = (ys, lg, Returned)"
    obtain ys' lg' fl' where r: "iter_lines fmul cfg mode worker_id num_workers fi (gi + 1) ls (seen + 1) = (ys', lg', fl')"
      by (cases "iter_lines fmul cfg mode worker_id num_workers fi (gi + 1) ls (seen + 1)") auto
    obtain ys2 lg2 fl2 where r2: "iter_lines fmul cfg mode worker_id num_workers fi (gi + 1) ls seen = (ys2, lg2, fl2)"
      by (cases "iter_lines fmul cfg mode worker_id num_workers fi (gi + 1) ls seen") auto
    from a r r2 Cons.prems have "fl' = Returned \<or> fl2 = Returned"
      by (auto simp: Let_def split: if_splits line.splits sum.splits prod.splits option.splits)
    then show False using Cons.IH [OF Cons.prems] r r2 by auto
  qed
qed

lemma iter_files_log:
  "num_workers \<noteq> 0 \<Longrightarrow> limit_games cfg = None \<Longrightarrow>
   iter_files fmul cfg mode worker_id num_workers fi files seen = (ys, lg, None) \<Longrightarrow>
   lg = owned_lines worker_id num_workers fi files"
proof (induction files arbitrary: fi seen ys lg)
  case Nil
  then show ?case by simp
next
  case (Cons f files)
  from Cons.prems(3) obtain ls where f: "f = Lines ls" by (cases f) auto
  obtain ys1 lg1 fl1 where r1: "iter_lines fmul cfg mode worker_id num_workers fi 0 ls seen = (ys1, lg1, fl1)"
    by (cases "iter_lines fmul cfg mode worker_id num_workers fi 0 ls seen") auto
  have "fl1 \<noteq> Returned" using iter_lines_not_returned [OF Cons.prems(2)] r1 by blast
  with Cons.prems(3) f r1 obtain seen' where fl1: "fl1 = Fallthrough seen'"
    by (cases fl1) auto
  obtain ys2 lg2 r2 where r2: "iter_files fmul cfg mode worker_id num_workers (Suc fi) files seen' = (ys2, lg2, r2)"
    by (cases "iter_files fmul cfg mode worker_id num_workers (Suc fi) files seen'") auto
  from Cons.prems(3) f r1 fl1 r2 have e: "lg = lg1 @ lg2" "r2 = None" by auto
  have "lg1 = map (Pair fi) (filter (\<lambda>i. i mod num_workers = worker_id) (indices_from 0 ls))"
    using iter_lines_log [OF Cons.prems(1,2)] r1 fl1 by blast
  moreover have "lg2 = owned_lines worker_id num_workers (Suc fi) files"
    using Cons.IH [OF Cons.prems(1,2)] r2 e(2) by blast
  ultimately show ?case using e(1) f by simp
qed

lemma sgf_iter_files_log:
  "num_workers \<noteq> 0 \<Longrightarrow> limit_games cfg = None \<Longrightarrow>
   fst (snd (sgf_iter_files fmul cfg mode worker_id num_workers fi files seen)) =
     filter (\<lambda>i. i mod num_workers = worker_id) (indices_from fi files)"
proof (induction files arbitrary: fi seen)
  case Nil
  then show ?case by simp
next
  case (Cons f files)
  show ?case
  proof (cases "fi mod num_workers = worker_id")
    case False
    then show ?thesis using Cons.prems Cons.IH [OF Cons.prems, of "fi + 1" seen] by simp
  next
    case True
    have a: "fst (snd (sgf_iter_files fmul cfg mode worker_id num_workers (fi + 1) files seen)) =
        filter (\<lambda>i. i mod num_workers = worker_id) (indices_from (fi + 1) files)"
      by (rule Cons.IH [OF Cons.prems])
    have b: "fst (snd (sgf_iter_files fmul cfg mode worker_id num_workers (fi + 1) files (seen + 1))) =
        filter (\<lambda>i. i mod num_workers = worker_id) (indices_from (fi + 1) files)"
      by (rule Cons.IH [OF Cons.prems])
    show ?thesis
      using True Cons.prems a b
      by (auto simp: Let_def split: prod.splits sgf_file.splits sum.splits option.splits)
  qed
qed

lemma owner_unique:
  "0 < (n::int) \<Longrightarrow> \<exists>!w. 0 \<le> w \<and> w < n \<and> i mod n = w"
  by auto


text \<open>
  C4, as the code has it. With \<open>num_workers \<ge> 1\<close> and no \<^verbatim>\<open>limit_games\<close>, the games a
  worker takes up are exactly those whose index \<open>i\<close> has
  \<open>i mod num_workers = worker_id\<close>, where in the compact format \<open>i\<close> is the line number
  within the game's own file, counted from 0 in every file (for an iteration that
  ends without an exception), and in the SGF format \<open>i\<close> is the index of the file
  in the file list. Every index has exactly one owner among the workers
  \<open>0 .. num_workers - 1\<close>, so the workers' index sets are disjoint and cover all
  indices.
\<close>

theorem sharding_by_index:
  "(0 < num_workers \<and> limit_games cfg = None \<and>
    GoMoveDataset_iter fmul cfg mode worker_id num_workers = (ys, lg, None) \<longrightarrow>
      lg = owned_lines worker_id num_workers 0 (data_files cfg)) \<and>
   (0 < num_workers \<and> limit_games scfg = None \<longrightarrow>
      fst (snd (SgfGoMoveDataset_iter fmul scfg mode worker_id num_workers)) =
        filter (\<lambda>i. i mod num_workers = worker_id) (indices_from 0 (data_files scfg))) \<and>
   (0 < num_workers \<longrightarrow> (\<exists>!w. 0 \<le> w \<and> w < num_workers \<and> i mod num_workers = w))"
  using iter_files_log [of num_workers cfg fmul mode worker_id 0 "data_files cfg" 0 ys lg]
    sgf_iter_files_log [of num_workers scfg fmul mode worker_id 0 "data_files scfg" 0]
    owner_unique [of num_workers i]
  unfolding GoMoveDataset_iter_def SgfGoMoveDataset_iter_def
  by simp

theorem sharding_by_index_witness:
  "(0::int) < 2 \<and>
   limit_games \<lparr>board_size = 2, data_files = [Lines [Blank, Blank, Blank], Lines [Blank, Blank]],
     val_ratio = 0, limit_games = None\<rparr> = None \<and>
   GoMoveDataset_iter (*) \<lparr>board_size = 2, data_files = [Lines [Blank, Blank, Blank], Lines [Blank, Blank]],
     val_ratio = 0, limit_games = None\<rparr> ''train'' 1 2 = ([], [(0, 1), (1, 1)], None) \<and>
   owned_lines 1 2 0 [Lines [Blank, Blank, Blank], Lines [Blank, Blank]] = [(0, 1), (1, 1)] \<and>
   limit_games \<lparr>board_size = 2, data_files = [Unreadable, Unreadable, Unreadable],
     val_ratio = 0, limit_games = None\<rparr> = None \<and>
   fst (snd (SgfGoMoveDataset_iter (*) \<lparr>board_size = 2, data_files = [Unreadable, Unreadable, Unreadable],
     val_ratio = 0, limit_games = None\<rparr> ''train'' 1 2)) = [1] \<and>
   (5::int) mod 2 = 1"
proof -
  let ?cfg = "\<lparr>board_size = 2, data_files = [Lines [Blank, Blank, Blank], Lines [Blank, Blank]],
     val_ratio = 0, limit_games = None\<rparr>"
  let ?scfg = "\<lparr>board_size = 2, data_files = [Unreadable, Unreadable, Unreadable],
     val_ratio = 0, limit_games = None\<rparr>"
  have a: "GoMoveDataset_iter (*) ?cfg ''train'' 1 2 = ([], [(0, 1), (1, 1)], None)"
    by code_simp
  have b: "limit_games ?cfg = None" "limit_games ?scfg = None" "(0::int) < 2"
    by simp_all
  have c: "[(0, 1), (1, 1)] = owned_lines 1 2 0 (data_files ?cfg)"
    using sharding_by_index [of 2 ?cfg "(*)" "''train''" 1 "[]" "[(0, 1), (1, 1)]"] a b
    by blast
  have d: "fst (snd (SgfGoMoveDataset_iter (*) ?scfg ''train'' 1 2)) =
      filter (\<lambda>i. i mod 2 = 1) (indices_from 0 (data_files ?scfg))"
    using sharding_by_index [of 2 _ "(*)" "''train''" 1 _ _ ?scfg] b
    by blast
  show ?thesis
    using a b c d by simp
qed

text \<open>
  C4, as the spec states it, fails for the compact format: with two files of one
  line each and two workers, the line of the second file is line 1 of the
  concatenated stream, which the claim gives to worker 1; in the code its index is
  0, worker 0 takes it up and worker 1 takes up nothing.
\<close>

theorem concatenated_index_counterexample:
  "stream_index [Lines [Blank], Lines [Blank]] 1 0 mod 2 = 1 \<and>
   fst (snd (GoMoveDataset_iter (*)
     \<lparr>board_size = 2, data_files = [Lines [Blank], Lines [Blank]],
      val_ratio = 0, limit_games = None\<rparr> ''train'' 1 2)) = [] \<and>
   fst (snd (GoMoveDataset_iter (*)
     \<lparr>board_size = 2, data_files = [Lines [Blank], Lines [Blank]],
      val_ratio = 0, limit_games = None\<rparr> ''train'' 0 2)) = [(0, 0), (1, 0)]"
  by code_simp

end
